theory Spec2Isabelle
  imports Main "HOL-Library.Sublist" "HOL-Library.AList"
begin

section \<open>Recovery orchestrator and batch pipeline (price-scraper module)\<close>

text \<open>
  The module keeps its recovery state in module-level variables (\<open>recoveryAttempts\<close>,
  \<open>isRecovering\<close>, \<open>currentIndex\<close>, \<open>isInitialized\<close>) and talks to the browser pool
  singleton. The model threads them through a \<open>state\<close> record. Everything the loop
  and the recovery await (launching the browser, the call made for one material item,
  the database) is an oracle in an \<open>env\<close> record, indexed by the number of calls made so
  far, so that a run is a function of the environment. Calls of \<open>logger\<close> are kept
  as an event list, which is how a run is observed.
\<close>

definition MAX_RECOVERY_ATTEMPTS :: nat where
  "MAX_RECOVERY_ATTEMPTS = 5"

text \<open>
  The test the module repeats in each \<open>catch\<close>:
  \<open>error.message.includes("disconnected") || includes("Target closed") || ...\<close>.
\<close>

definition is_disconnect_message :: "string \<Rightarrow> bool" where
  "is_disconnect_message m =
     (sublist ''disconnected'' m \<or> sublist ''Target closed'' m \<or>
      sublist ''Session closed'' m \<or> sublist ''Protocol error'' m)"

record material_item =
  mi_id :: string
  mi_name :: string

record source_update =
  u_id :: string
  u_source_id :: string
  u_item_id :: string

record outdated_url =
  o_id :: string
  o_url :: string

text \<open>
  What \<open>processMaterialItem\<close> returns, as far as \<open>processRemainingItems\<close> reads it.
  Every \<open>return\<close> of \<open>processMaterialItem\<close> carries the item it was called with.
\<close>

record item_result =
  r_success :: bool
  r_materialItem :: material_item
  r_updatedItemSources :: "source_update list option"
  r_outdatedUrls :: "outdated_url list option"
  r_error :: "string option"

text \<open>
  An entry of \<open>results.details\<close>: the result object of an item, or the object the
  \<open>catch\<close> of the loop pushes (\<open>materialItemId\<close>, \<open>materialItemName\<close>, \<open>error\<close>).
\<close>

datatype detail =
    ItemDetail item_result
  | ErrorDetail string string string

fun detail_item_id :: "detail \<Rightarrow> string" where
  "detail_item_id (ItemDetail r) = mi_id (r_materialItem r)"
| "detail_item_id (ErrorDetail i n e) = i"

record results =
  success :: nat
  failed :: nat
  skipped :: nat
  outdated :: nat
  materialUpdates :: nat
  details :: "detail list"
  updatedItemSources :: "source_update list"

definition empty_results :: results where
  "empty_results = \<lparr>success = 0, failed = 0, skipped = 0, outdated = 0,
     materialUpdates = 0, details = [], updatedItemSources = []\<rparr>"

text \<open>
  \<open>recoverFromDisconnection\<close> returns either what \<open>processRemainingItems\<close> returned or
  the object \<open>{success: false, error, processed, total}\<close>.
\<close>

datatype recovery_result =
    Processed results
  | RecoveryFailed string nat nat

text \<open>
  The merge after a recovery: \<open>results.success += recoveryResults.success || 0\<close> and
  so on. On the failure object \<open>success\<close> is \<open>false\<close> and the other fields are
  missing, so every sum adds 0 and nothing is pushed.
\<close>

fun merge_results :: "results \<Rightarrow> recovery_result \<Rightarrow> results" where
  "merge_results res (Processed r) =
     res\<lparr>success := success res + success r,
         failed := failed res + failed r,
         skipped := skipped res + skipped r,
         outdated := outdated res + outdated r,
         details := details res @ details r,
         updatedItemSources := updatedItemSources res @ updatedItemSources r\<rparr>"
| "merge_results res (RecoveryFailed e p t) = res"

datatype event =
    LogExceeded
  | LogRecoveryAttempt nat
  | LogReinitializing
  | LogResuming nat
  | LogRecoveryError string
  | LogNotConnected
  | LogProcessing nat
  | LogDisconnection string
  | LogItemError string string

text \<open>
  The outcome of the call the loop of \<open>processRemainingItems\<close> awaits for an item: a
  result object (\<open>success\<close>, \<open>updatedItemSources\<close>, \<open>outdatedUrls\<close>, \<open>error\<close>) or a thrown
  message. The loop wraps the call in \<open>try\<close>/\<open>catch\<close>, so it is modelled for a callee that
  may throw; \<open>processMaterialItem\<close> itself, modelled next, never does.
\<close>

datatype run_outcome =
    Returned bool "source_update list option" "outdated_url list option" "string option"
  | Threw string

subsection \<open>Processing one material item\<close>

text \<open>
  What one call of \<open>processMaterialItem\<close> awaits. \<open>ie_initialize\<close>: the guard
  \<open>if (!isInitialized) await initialize()\<close> throws a message or not.
  \<open>ie_fetchItemSources\<close>: the query throws, or returns that many item sources.
  \<open>ie_domains\<close>: what happens in the \<open>try\<close> block of each domain group, in the order of
  \<open>Object.entries(itemsByDomain)\<close>. Either \<open>processDomainItems\<close> returns and the updates of
  its successful sources and its outdated URLs are collected; or an error is thrown, by
  \<open>processDomainItems\<close> or while its updates are collected: then the outcome holds the
  updates collected before, the message, and whether \<open>browserPool.browser\<close> is still
  there when the error is caught. \<open>ie_updateMaterialItems\<close>: the call
  \<open>updateMaterialItems(updatedItemSources)\<close> on a non-empty list throws, or returns
  updates among which the one of this item is found or not.
\<close>

datatype domain_outcome =
    DomainDone "source_update list" "outdated_url list"
  | DomainThrew "source_update list" string bool

record item_env =
  ie_initialize :: "string option"
  ie_fetchItemSources :: "string + nat"
  ie_domains :: "domain_outcome list"
  ie_updateMaterialItems :: "string + bool"

text \<open>
  The loop over the domain groups. Its \<open>catch\<close> throws
  \<open>Browser disconnection during domain processing: ...\<close> for a disconnection-class
  error or a missing browser reference, and otherwise logs the error and goes on with
  the next group.
\<close>

fun domain_loop ::
    "domain_outcome list \<Rightarrow> source_update list \<Rightarrow> outdated_url list \<Rightarrow>
     string + source_update list \<times> outdated_url list" where
  "domain_loop [] us os = Inr (us, os)"
| "domain_loop (DomainDone us' os' # ds) us os = domain_loop ds (us @ us') (os @ os')"
| "domain_loop (DomainThrew us' msg present # ds) us os =
     (if is_disconnect_message msg \<or> \<not> present
      then Inl (''Browser disconnection during domain processing: '' @ msg)
      else domain_loop ds (us @ us') os)"

text \<open>
  The \<open>try\<close> block of \<open>processMaterialItem\<close>: \<open>Inl\<close> is a thrown message, \<open>Inr\<close> the fields
  \<open>success\<close>, \<open>updatedItemSources\<close> and \<open>outdatedUrls\<close> of the returned object. With no
  item source the object has neither list. \<open>updateMaterialItems\<close> returns \<open>[]\<close> at once
  for an empty list of updates. When no update of the item is found, the object holds
  the number of updated sources in place of the list; the caller reads that field of
  a successful result only, and the model leaves it out.
\<close>

definition item_body ::
    "item_env \<Rightarrow> string + bool \<times> source_update list option \<times> outdated_url list option" where
  "item_body ie =
     (case ie_initialize ie of
        Some m \<Rightarrow> Inl m
      | None \<Rightarrow>
          (case ie_fetchItemSources ie of
             Inl m \<Rightarrow> Inl m
           | Inr n \<Rightarrow>
               if n = 0 then Inr (False, None, None)
               else (case domain_loop (ie_domains ie) [] [] of
                       Inl m \<Rightarrow> Inl m
                     | Inr (us, os) \<Rightarrow>
                         if us = [] then Inr (False, None, Some os)
                         else (case ie_updateMaterialItems ie of
                                 Inl m \<Rightarrow> Inl m
                               | Inr found \<Rightarrow>
                                   if found then Inr (True, Some us, Some os)
                                   else Inr (False, None, Some os)))))"

text \<open>
  The whole body of \<open>processMaterialItem\<close> is one \<open>try\<close> block, and its \<open>catch\<close> returns
  \<open>{success: false, message, materialItem, error: error.message}\<close> for whatever was
  thrown, the error of the domain loop included.
\<close>

definition processMaterialItem :: "item_env \<Rightarrow> run_outcome" where
  "processMaterialItem ie =
     (case item_body ie of
        Inr (ok, upd, outd) \<Rightarrow> Returned ok upd outd None
      | Inl msg \<Rightarrow> Returned False None None (Some msg))"

subsection \<open>The loop over the items and the recovery\<close>

text \<open>
  \<open>launch e k\<close>: the k-th \<open>puppeteer.launch\<close> succeeds (\<open>None\<close>) or throws a message.
  \<open>run_item e k\<close>: the k-th call the loop awaits for an item.
  \<open>pool_closed e k\<close>: the pool singleton was closed by someone else (\<open>cleanup\<close>, another
  batch) while the k-th call was awaited, so that \<open>browserPool.browser\<close> is null after it.
\<close>

record env =
  launch :: "nat \<Rightarrow> string option"
  run_item :: "nat \<Rightarrow> run_outcome"
  pool_closed :: "nat \<Rightarrow> bool"

text \<open>
  The environment of the program itself: the k-th call the loop makes is
  \<open>processMaterialItem\<close>, in the item environment \<open>ies k\<close>.
\<close>

definition program_env ::
    "(nat \<Rightarrow> string option) \<Rightarrow> (nat \<Rightarrow> item_env) \<Rightarrow> (nat \<Rightarrow> bool) \<Rightarrow> env" where
  "program_env l ies c =
     \<lparr>launch = l, run_item = (\<lambda>k. processMaterialItem (ies k)), pool_closed = c\<rparr>"

record state =
  recoveryAttempts :: nat
  isRecovering :: bool
  currentIndex :: nat
  isInitialized :: bool
  browser :: bool
  launches :: nat
  runs :: nat
  log :: "event list"

definition record_result :: "results \<Rightarrow> item_result \<Rightarrow> results" where
  "record_result res r =
     (if r_success r
      then res\<lparr>success := success res + 1,
               updatedItemSources := updatedItemSources res @
                 (case r_updatedItemSources r of None \<Rightarrow> [] | Some us \<Rightarrow> us)\<rparr>
      else res\<lparr>failed := failed res + 1,
               outdated := outdated res +
                 (case r_outdatedUrls r of None \<Rightarrow> 0 | Some os \<Rightarrow> length os)\<rparr>)
     \<lparr>details := details res @ [ItemDetail r]\<rparr>"

definition record_error :: "results \<Rightarrow> material_item \<Rightarrow> string \<Rightarrow> results" where
  "record_error res item msg =
     res\<lparr>failed := failed res + 1,
         details := details res @ [ErrorDetail (mi_id item) (mi_name item) msg]\<rparr>"

definition log_event :: "event \<Rightarrow> state \<Rightarrow> state" where
  "log_event ev s = s\<lparr>log := log s @ [ev]\<rparr>"

text \<open>The state once \<open>await processMaterialItem(item)\<close> has settled for index \<open>i\<close>.\<close>

definition after_item :: "env \<Rightarrow> nat \<Rightarrow> state \<Rightarrow> state" where
  "after_item e i s =
     s\<lparr>currentIndex := i,
       log := log s @ [LogProcessing i],
       runs := runs s + 1,
       browser := (browser s \<and> \<not> pool_closed e (runs s))\<rparr>"

text \<open>
  One recovery cycle up to the re-launch: the attempt is logged, the cooldown is
  awaited, \<open>isRecovering\<close> is set, the counter is incremented and the pool is closed
  (\<open>browserPool.close()\<close> leaves \<open>browser\<close> null and cannot throw through its \<open>catch\<close>).
\<close>

definition begin_recovery :: "state \<Rightarrow> state" where
  "begin_recovery s =
     s\<lparr>log := log s @ [LogRecoveryAttempt (recoveryAttempts s + 1)],
       isRecovering := True,
       recoveryAttempts := recoveryAttempts s + 1,
       browser := False\<rparr>"

definition relaunch_failed :: "string \<Rightarrow> state \<Rightarrow> state" where
  "relaunch_failed msg s =
     (begin_recovery s)\<lparr>launches := launches s + 1,
       log := log (begin_recovery s) @ [LogReinitializing, LogRecoveryError msg]\<rparr>"

definition relaunched :: "nat \<Rightarrow> state \<Rightarrow> state" where
  "relaunched startIndex s =
     (begin_recovery s)\<lparr>launches := launches s + 1,
       browser := True,
       log := log (begin_recovery s) @ [LogReinitializing, LogResuming startIndex]\<rparr>"

text \<open>\<open>if (startIndex + result.success + result.failed >= items.length)\<close>: reset.\<close>

definition finish_recovery :: "nat \<Rightarrow> nat \<Rightarrow> results \<Rightarrow> state \<Rightarrow> state" where
  "finish_recovery n startIndex r s =
     (if startIndex + success r + failed r \<ge> n
      then s\<lparr>isRecovering := False, recoveryAttempts := 0\<rparr>
      else s)"

text \<open>
  \<open>items_loop e items i res s\<close> is the \<open>for\<close> loop of \<open>processRemainingItems\<close> at index
  \<open>i\<close> with the accumulated \<open>results\<close>; it and \<open>recoverFromDisconnection\<close> call each
  other as in the source. Each recovery cycle increments \<open>recoveryAttempts\<close>, which
  is reset only while returning, so the pair terminates for every environment.
\<close>

function items_loop ::
    "env \<Rightarrow> material_item list \<Rightarrow> nat \<Rightarrow> results \<Rightarrow> state \<Rightarrow> results \<times> state"
  and recoverFromDisconnection ::
    "env \<Rightarrow> material_item list \<Rightarrow> nat \<Rightarrow> state \<Rightarrow> recovery_result \<times> state"
where
  "items_loop e items i res s =
     (if i < length items then
        if \<not> browser s then
          (case recoverFromDisconnection e items i
                  (log_event LogNotConnected (s\<lparr>currentIndex := i\<rparr>)) of
             (rr, s') \<Rightarrow> (merge_results res rr, s'))
        else
          (case run_item e (runs s) of
             Returned ok upd outd err \<Rightarrow>
               items_loop e items (i + 1)
                 (record_result res
                    \<lparr>r_success = ok, r_materialItem = items ! i,
                     r_updatedItemSources = upd, r_outdatedUrls = outd,
                     r_error = err\<rparr>)
                 (after_item e i s)
           | Threw msg \<Rightarrow>
               if is_disconnect_message msg \<or> \<not> browser (after_item e i s) then
                 (case recoverFromDisconnection e items i
                         (log_event (LogDisconnection msg) (after_item e i s)) of
                    (rr, s') \<Rightarrow> (merge_results res rr, s'))
               else
                 items_loop e items (i + 1) (record_error res (items ! i) msg)
                   (log_event (LogItemError (mi_id (items ! i)) msg) (after_item e i s)))
      else (res, s))"
| "recoverFromDisconnection e items startIndex s =
     (if recoveryAttempts s \<ge> MAX_RECOVERY_ATTEMPTS then
        (RecoveryFailed ''Exceeded maximum recovery attempts'' startIndex (length items),
         log_event LogExceeded s)
      else
        (case launch e (launches s) of
           Some msg \<Rightarrow>
             if is_disconnect_message msg
             then recoverFromDisconnection e items startIndex (relaunch_failed msg s)
             else (RecoveryFailed msg startIndex (length items), relaunch_failed msg s)
         | None \<Rightarrow>
             (case items_loop e items startIndex empty_results (relaunched startIndex s) of
                (r, s') \<Rightarrow>
                  (Processed r, finish_recovery (length items) startIndex r s'))))"
  by pat_completeness auto
termination
  by (relation "inv_image (less_than <*lex*> less_than <*lex*> less_than)
        (\<lambda>x. case x of
            Inl (e, items, i, res, s) \<Rightarrow>
              (MAX_RECOVERY_ATTEMPTS - recoveryAttempts s, 1::nat, length items - i)
          | Inr (e, items, i, s) \<Rightarrow>
              (MAX_RECOVERY_ATTEMPTS - recoveryAttempts s, 0, 0))")
     (auto simp: MAX_RECOVERY_ATTEMPTS_def log_event_def after_item_def begin_recovery_def
        relaunch_failed_def relaunched_def)

declare items_loop.simps [simp del] recoverFromDisconnection.simps [simp del]

definition processRemainingItems ::
    "env \<Rightarrow> material_item list \<Rightarrow> nat \<Rightarrow> state \<Rightarrow> results \<times> state" where
  "processRemainingItems e items startIndex s = items_loop e items startIndex empty_results s"

subsection \<open>The batch entry point\<close>





text \<open>\<open>if (!isRecovering) await browserPool.close()\<close>, on both ways out.\<close>

definition close_unless_recovering :: "state \<Rightarrow> state" where
  "close_unless_recovering s = (if \<not> isRecovering s then s\<lparr>browser := False\<rparr> else s)"



subsection \<open>Processing one item source\<close>

text \<open>
  \<open>processItemSource\<close> awaits the screenshot, the price extraction and the database;
  each may throw. The floating-point price fields (\<open>priceWithTax\<close>, \<open>priceChange\<close>) do
  not take part in the control flow and are left out; the price is a parameter type.
\<close>

record 'p source_result =
  sr_id :: string
  sr_materialItemId :: string
  sr_materialItemName :: string
  sr_success :: bool
  sr_outdated :: bool
  sr_oldPrice :: "'p option"
  sr_newPrice :: "'p option"
  sr_error :: "string option"

record 'p item_source =
  src_id :: string
  src_url :: string
  src_sale_price :: "'p option"

record 'p source_env =
  browser_present :: bool
  takeScreenshot :: "string + string option"
  markUrlAsOutdated :: "string option"
  extractPriceFromImage :: "string + 'p option"
  updateItemSource :: "string option"
  browser_at_catch :: bool

definition initial_result :: "'p item_source \<Rightarrow> material_item \<Rightarrow> 'p source_result" where
  "initial_result source item =
     \<lparr>sr_id = src_id source, sr_materialItemId = mi_id item,
      sr_materialItemName = mi_name item, sr_success = False, sr_outdated = False,
      sr_oldPrice = src_sale_price source, sr_newPrice = None, sr_error = None\<rparr>"

text \<open>The \<open>try\<close> block: \<open>Inl\<close> is a thrown message, \<open>Inr\<close> a returned result.\<close>

definition source_body :: "'p source_env \<Rightarrow> 'p source_result \<Rightarrow> string + 'p source_result" where
  "source_body se result =
     (if \<not> browser_present se
      then Inl ''Browser disconnected before processing item source''
      else case takeScreenshot se of
             Inl m \<Rightarrow> Inl m
           | Inr None \<Rightarrow>
               (case markUrlAsOutdated se of
                  Some m \<Rightarrow> Inl m
                | None \<Rightarrow> Inr (result\<lparr>sr_outdated := True,
                                      sr_error := Some ''Failed to take screenshot''\<rparr>))
           | Inr (Some path) \<Rightarrow>
               (case extractPriceFromImage se of
                  Inl m \<Rightarrow> Inl m
                | Inr None \<Rightarrow>
                    (case markUrlAsOutdated se of
                       Some m \<Rightarrow> Inl m
                     | None \<Rightarrow> Inr (result\<lparr>sr_outdated := True,
                                           sr_error := Some ''Failed to extract price''\<rparr>))
                | Inr (Some price) \<Rightarrow>
                    (case updateItemSource se of
                       Some m \<Rightarrow> Inl m
                     | None \<Rightarrow> Inr (result\<lparr>sr_success := True,
                                           sr_newPrice := Some price\<rparr>))))"

definition processItemSource ::
    "'p source_env \<Rightarrow> 'p item_source \<Rightarrow> material_item \<Rightarrow> string + 'p source_result" where
  "processItemSource se source item =
     (case source_body se (initial_result source item) of
        Inr r \<Rightarrow> Inr r
      | Inl msg \<Rightarrow>
          if is_disconnect_message msg \<or> \<not> browser_at_catch se
          then Inl (''Browser disconnection during item source processing: '' @ msg)
          else Inr ((initial_result source item)\<lparr>sr_error := Some msg\<rparr>))"

subsection \<open>Observations on a run\<close>

fun is_attempt :: "event \<Rightarrow> bool" where
  "is_attempt (LogRecoveryAttempt n) = True"
| "is_attempt ev = False"

text \<open>The number of recovery cycles a log shows.\<close>

definition recovery_cycles :: "event list \<Rightarrow> nat" where
  "recovery_cycles evs = length (filter is_attempt evs)"

text \<open>A pool that never comes back: every re-launch throws a disconnection error.\<close>

definition always_disconnected :: "env \<Rightarrow> bool" where
  "always_disconnected e =
     (\<forall>k. case launch e k of Some m \<Rightarrow> is_disconnect_message m | None \<Rightarrow> False)"

text \<open>
  A recovery gives up where the bound is found exceeded, or where the re-launch throws
  an error that is not of the disconnection class. These are the two places where
  \<open>recoverFromDisconnection\<close> returns its failure object. \<open>gave_up s s'\<close>: a recovery
  gave up on the way from state \<open>s\<close> to state \<open>s'\<close>.
\<close>

fun gives_up :: "event \<Rightarrow> bool" where
  "gives_up LogExceeded = True"
| "gives_up (LogRecoveryError m) = (\<not> is_disconnect_message m)"
| "gives_up ev = False"

definition give_ups :: "event list \<Rightarrow> nat" where
  "give_ups evs = length (filter gives_up evs)"

definition gave_up :: "state \<Rightarrow> state \<Rightarrow> bool" where
  "gave_up s s' = (give_ups (log s) < give_ups (log s'))"

text \<open>
  \<open>exhausted s s'\<close>: on the way from \<open>s\<close> to \<open>s'\<close> a call of \<open>recoverFromDisconnection\<close>
  found the attempts used up (\<open>Exceeded maximum recovery attempts\<close> was logged).
\<close>

fun is_exceeded :: "event \<Rightarrow> bool" where
  "is_exceeded LogExceeded = True"
| "is_exceeded ev = False"

definition exhaustions :: "event list \<Rightarrow> nat" where
  "exhaustions evs = length (filter is_exceeded evs)"

definition exhausted :: "state \<Rightarrow> state \<Rightarrow> bool" where
  "exhausted s s' = (exhaustions (log s) < exhaustions (log s'))"

text \<open>
  \<open>covers items i g ds\<close>: the records \<open>ds\<close> are at most one per item from index \<open>i\<close>
  on, and exactly one per item, in order, unless a recovery gave up (\<open>g\<close>).
\<close>

definition covers :: "material_item list \<Rightarrow> nat \<Rightarrow> bool \<Rightarrow> detail list \<Rightarrow> bool" where
  "covers items i g ds =
     (length ds \<le> length items - i \<and>
      (\<not> g \<longrightarrow> map detail_item_id ds = map mi_id (drop i items)))"

text \<open>The record the loop leaves for the k-th call, made for \<open>item\<close>.\<close>

definition expected_detail :: "env \<Rightarrow> nat \<Rightarrow> material_item \<Rightarrow> detail" where
  "expected_detail e k item =
     (case run_item e k of
        Returned ok upd outd err \<Rightarrow>
          ItemDetail \<lparr>r_success = ok, r_materialItem = item,
            r_updatedItemSources = upd, r_outdatedUrls = outd, r_error = err\<rparr>
      | Threw msg \<Rightarrow> ErrorDetail (mi_id item) (mi_name item) msg)"

text \<open>An environment in which no call meets a disconnection.\<close>

definition no_disconnection :: "env \<Rightarrow> bool" where
  "no_disconnection e =
     (\<forall>k. \<not> pool_closed e k \<and>
          (case run_item e k of Threw msg \<Rightarrow> \<not> is_disconnect_message msg
           | Returned ok upd outd err \<Rightarrow> True))"

subsection \<open>Concrete runs\<close>

definition item_a :: material_item where
  "item_a = \<lparr>mi_id = ''m1'', mi_name = ''Copper pipe''\<rparr>"

definition item_b :: material_item where
  "item_b = \<lparr>mi_id = ''m2'', mi_name = ''PVC elbow''\<rparr>"


text \<open>The first item throws \<open>Navigation timeout\<close>, every later call returns a failure.\<close>

definition flaky_env :: env where
  "flaky_env =
     \<lparr>launch = (\<lambda>k. None),
      run_item = (\<lambda>k. if k = 0 then Threw ''Navigation timeout of 90000 ms exceeded''
                       else Returned False None None None),
      pool_closed = (\<lambda>k. False)\<rparr>"

text \<open>
  The module state after an earlier batch of the same process has finished: the
  services are initialised, and the batch has closed the pool on its way out.
\<close>

definition after_previous_batch :: state where
  "after_previous_batch =
     \<lparr>recoveryAttempts = 0, isRecovering = False, currentIndex = 0,
      isInitialized = True, browser = False, launches = 1, runs = 0, log = []\<rparr>"

definition running_state :: state where
  "running_state =
     \<lparr>recoveryAttempts = 0, isRecovering = False, currentIndex = 0,
      isInitialized = True, browser = True, launches = 1, runs = 0, log = []\<rparr>"

text \<open>
  Item environments. \<open>priced u\<close>: one source on one domain is priced and the material
  item is updated. \<open>crashed_item\<close>: the tab dies under the screenshot of the only
  source of the item, and \<open>processDomainItems\<close> passes on what \<open>processItemSource\<close> throws.
  \<open>timed_out_item\<close>: the page of the only source does not load; \<open>processItemSource\<close> returns
  its failure record, and \<open>processDomainItems\<close> returns with nothing updated.
\<close>

definition update_a :: source_update where
  "update_a = \<lparr>u_id = ''s1'', u_source_id = ''v1'', u_item_id = ''m1''\<rparr>"

definition update_b :: source_update where
  "update_b = \<lparr>u_id = ''s2'', u_source_id = ''v1'', u_item_id = ''m2''\<rparr>"

definition priced :: "source_update \<Rightarrow> item_env" where
  "priced u =
     \<lparr>ie_initialize = None, ie_fetchItemSources = Inr 1,
      ie_domains = [DomainDone [u] []], ie_updateMaterialItems = Inr True\<rparr>"


definition timed_out_item :: item_env where
  "timed_out_item =
     \<lparr>ie_initialize = None, ie_fetchItemSources = Inr 1,
      ie_domains = [DomainDone [] []],
      ie_updateMaterialItems = Inr False\<rparr>"

text \<open>Chrome cannot be started again: every launch throws a protocol error.\<close>

definition stuck_env :: env where
  "stuck_env =
     program_env (\<lambda>k. Some ''Protocol error (Target.setDiscoverTargets): Target closed.'')
       (\<lambda>k. timed_out_item) (\<lambda>k. False)"


text \<open>
  The browser starts and works: the first call prices \<open>item_a\<close>, every later call
  prices \<open>item_b\<close>.
\<close>

definition steady_env :: env where
  "steady_env =
     program_env (\<lambda>k. None) (\<lambda>k. if k = 0 then priced update_a else priced update_b)
       (\<lambda>k. False)"


text \<open>
  The browser never stays: every launch succeeds, no page loads, and the pool has been
  closed by the time the item settles, so that the browser reference is missing at
  the next head of the loop.
\<close>

definition unstable_env :: env where
  "unstable_env = program_env (\<lambda>k. None) (\<lambda>k. timed_out_item) (\<lambda>k. True)"

text \<open>
  As \<open>unstable_env\<close>, but only the first two launches of the process succeed: Chrome
  cannot be started any more after that.
\<close>

definition relapsing_env :: env where
  "relapsing_env =
     program_env
       (\<lambda>k. if k \<le> 1 then None
            else Some ''Protocol error (Target.setDiscoverTargets): Target closed.'')
       (\<lambda>k. timed_out_item) (\<lambda>k. True)"



definition source_a :: "nat item_source" where
  "source_a = \<lparr>src_id = ''s1'', src_url = ''https://vendor.example/p/1'', src_sale_price = Some 1999\<rparr>"

text \<open>The page does not load: \<open>takeScreenshot\<close> throws a navigation error.\<close>

definition dns_failure :: "nat source_env" where
  "dns_failure =
     \<lparr>browser_present = True,
      takeScreenshot = Inl ''net::ERR_NAME_NOT_RESOLVED at https://vendor.example/p/1'',
      markUrlAsOutdated = None, extractPriceFromImage = Inr None,
      updateItemSource = None, browser_at_catch = True\<rparr>"

text \<open>The tab dies under the screenshot.\<close>

definition tab_crash :: "nat source_env" where
  "tab_crash =
     \<lparr>browser_present = True,
      takeScreenshot = Inl ''Protocol error (Page.captureScreenshot): Target closed.'',
      markUrlAsOutdated = None, extractPriceFromImage = Inr None,
      updateItemSource = None, browser_at_catch = True\<rparr>"

section \<open>Task queue (utils/task-queue.js)\<close>

text \<open>
  A queued entry is the object \<open>{task, taskName, priority, resolve, reject}\<close>. The
  closures identify the task; the model names them by \<open>tid\<close>, the number of the \<open>add\<close>
  call that created the entry.
\<close>

record task_entry =
  tid :: nat
  taskName :: string
  priority :: int

text \<open>An element of \<open>this.results\<close>.\<close>

record task_record =
  rec_taskName :: string
  rec_success :: bool
  rec_result :: "string option"
  rec_error :: "string option"
  rec_duration :: nat

text \<open>
  The fields of the class, and two observations: \<open>in_flight\<close>, the entries whose
  promise chain is pending (started, not settled), and \<open>completions\<close>, the number of
  calls of the \<open>onComplete\<close> callback (\<open>onComplete\<close> is whether one is registered).
\<close>

record task_queue =
  concurrency :: nat
  running :: int
  queue :: "task_entry list"
  results_list :: "task_record list"
  onComplete :: bool
  in_flight :: "task_entry list"
  arrivals :: nat
  completions :: nat

text \<open>\<open>this.concurrency = options.concurrency || 3\<close>: a missing or zero value gives 3.\<close>

definition TaskQueue :: "nat \<Rightarrow> bool \<Rightarrow> task_queue" where
  "TaskQueue c cb =
     \<lparr>concurrency = (if c = 0 then 3 else c), running = 0, queue = [], results_list = [],
      onComplete = cb, in_flight = [], arrivals = 0, completions = 0\<rparr>"

text \<open>
  \<open>this.queue.sort((a, b) => b.priority - a.priority)\<close>: \<open>Array.prototype.sort\<close> is
  stable, as is \<open>sort_key\<close>.
\<close>

definition by_priority :: "task_entry list \<Rightarrow> task_entry list" where
  "by_priority es = sort_key (\<lambda>e. - priority e) es"

text \<open>One pass of \<open>runNext\<close> below its guard: sort, \<open>shift\<close>, \<open>running++\<close>, start the task.\<close>

definition start_next :: "task_queue \<Rightarrow> task_queue" where
  "start_next q =
     q\<lparr>queue := tl (by_priority (queue q)),
       running := running q + 1,
       in_flight := in_flight q @ [hd (by_priority (queue q))]\<rparr>"

function runNext :: "task_queue \<Rightarrow> task_queue" where
  "runNext q =
     (if running q \<ge> int (concurrency q) \<or> queue q = [] then q
      else if running (start_next q) < int (concurrency (start_next q))
           then runNext (start_next q)
           else start_next q)"
  by pat_completeness auto
termination
  by (relation "measure (\<lambda>q. length (queue q))") (auto simp: start_next_def by_priority_def)

declare runNext.simps [simp del]

definition enqueue :: "string \<Rightarrow> int \<Rightarrow> task_queue \<Rightarrow> task_queue" where
  "enqueue name p q =
     q\<lparr>queue := queue q @ [\<lparr>tid = arrivals q, taskName = name, priority = p\<rparr>],
       arrivals := arrivals q + 1\<rparr>"

definition add :: "string \<Rightarrow> int \<Rightarrow> task_queue \<Rightarrow> task_queue" where
  "add name p q = runNext (enqueue name p q)"

definition outcome_record :: "task_entry \<Rightarrow> bool \<Rightarrow> string \<Rightarrow> nat \<Rightarrow> task_record" where
  "outcome_record e ok v d =
     \<lparr>rec_taskName = taskName e, rec_success = ok,
      rec_result = (if ok then Some v else None),
      rec_error = (if ok then None else Some v),
      rec_duration = d\<rparr>"

definition notify :: "task_queue \<Rightarrow> task_queue" where
  "notify q =
     (if queue q = [] \<and> running q = 0 \<and> onComplete q
      then q\<lparr>completions := completions q + 1\<rparr> else q)"

text \<open>
  The task of entry \<open>e\<close> settles: \<open>then\<close> or \<open>catch\<close> pushes the record, \<open>finally\<close>
  decrements \<open>running\<close>, calls \<open>runNext\<close> and then the callback when all is idle.
  The handlers run in consecutive microtasks. A call of \<open>add\<close> or \<open>waitForAll\<close> that
  runs between them reads and writes nothing the first handler touches, so it has the
  effect it has just before the task settles; the handlers are one step of the model.
\<close>

definition complete :: "task_entry \<Rightarrow> bool \<Rightarrow> string \<Rightarrow> nat \<Rightarrow> task_queue \<Rightarrow> task_queue" where
  "complete e ok v d q =
     q\<lparr>results_list := results_list q @ [outcome_record e ok v d],
       in_flight := filter (\<lambda>x. tid x \<noteq> tid e) (in_flight q),
       running := running q - 1\<rparr>"

definition settle :: "nat \<Rightarrow> bool \<Rightarrow> string \<Rightarrow> nat \<Rightarrow> task_queue \<Rightarrow> task_queue" where
  "settle t ok v d q =
     (case find (\<lambda>e. tid e = t) (in_flight q) of
        None \<Rightarrow> q
      | Some e \<Rightarrow> notify (runNext (complete e ok v d q)))"

definition waitForAll :: "task_queue \<Rightarrow> task_queue" where
  "waitForAll q = (if queue q = [] \<and> running q = 0 then q else q\<lparr>onComplete := True\<rparr>)"

text \<open>
  What happens to a queue from outside: a call of \<open>add\<close>, a started task that settles
  (fulfilled or rejected, with its value or message, after some duration), a call of
  \<open>waitForAll\<close>. Settling a task that is not in flight cannot happen and changes nothing.
\<close>

datatype queue_event =
    Add string int
  | Settle nat bool string nat
  | WaitForAll

fun queue_step :: "task_queue \<Rightarrow> queue_event \<Rightarrow> task_queue" where
  "queue_step q (Add name p) = add name p q"
| "queue_step q (Settle t ok v d) = settle t ok v d q"
| "queue_step q WaitForAll = waitForAll q"

definition run_queue :: "queue_event list \<Rightarrow> task_queue \<Rightarrow> task_queue" where
  "run_queue evs q = foldl queue_step q evs"

text \<open>Entries of equal priority stand in the order of their arrival.\<close>

definition same_priority_in_order :: "task_entry list \<Rightarrow> bool" where
  "same_priority_in_order es =
     sorted_wrt (\<lambda>a b. priority a = priority b \<longrightarrow> tid a < tid b) es"

definition queue_inv :: "task_queue \<Rightarrow> bool" where
  "queue_inv q =
     (running q = int (length (in_flight q)) \<and> running q \<le> int (concurrency q) \<and>
      distinct (map tid (in_flight q)) \<and> distinct (map tid (queue q)) \<and>
      list_all (\<lambda>e. tid e < arrivals q) (in_flight q) \<and>
      list_all (\<lambda>e. tid e < arrivals q) (queue q) \<and>
      list_all (\<lambda>e. \<not> list_ex (\<lambda>x. tid x = tid e) (in_flight q)) (queue q) \<and>
      same_priority_in_order (queue q))"

text \<open>
  \<open>highest_first e es\<close>: \<open>e\<close> is an entry of \<open>es\<close> of the highest priority and, among
  those, the one that arrived first.
\<close>

definition highest_first :: "task_entry \<Rightarrow> task_entry list \<Rightarrow> bool" where
  "highest_first e es =
     (list_ex (\<lambda>x. x = e) es \<and>
      list_all (\<lambda>x. priority x \<le> priority e \<and>
                     (priority x = priority e \<longrightarrow> tid e \<le> tid x)) es)"

text \<open>A queue with one slot: one task runs, three wait.\<close>

definition busy_queue :: task_queue where
  "busy_queue =
     run_queue [Add ''first'' 0, Add ''low'' 1, Add ''high'' 5, Add ''high again'' 5]
       (TaskQueue 1 False)"

section \<open>Session manager (services/session-manager.js)\<close>

text \<open>
  A session is the object \<open>{timestamp, cookies, ...extraData}\<close>: a finite map from keys
  to values. Of a value the code asks two things: whether it is falsy
  (\<open>!sessionData.timestamp\<close>), and what \<open>new Date(value)\<close> is. \<open>Instant t\<close> is a truthy
  value that \<open>Date\<close> reads as the instant \<open>t\<close> (milliseconds since the epoch), such as
  the string \<open>toISOString\<close> produced; for \<open>Cookies\<close> and \<open>Opaque\<close> values the date is
  invalid, the difference is \<open>NaN\<close> and the comparison with 24 is false.
\<close>

datatype jsval =
    Falsy
  | Instant int
  | Cookies "string list"
  | Opaque string

type_synonym session = "string \<rightharpoonup> jsval"

text \<open>
  The sessions directory: the files in listing order with what \<open>JSON.parse\<close> makes of
  them (\<open>Corrupt\<close> when reading or parsing throws; a parsed value that is not an
  object has no \<open>timestamp\<close> and stands as the empty map), and the faults of the file
  system.
\<close>

datatype content =
    Corrupt
  | Json session

record disk =
  entries :: "(string \<times> content) list"
  broken_dir :: bool
  unlink_fails :: "string \<Rightarrow> bool"
  write_fails :: "string \<Rightarrow> bool"

record session_manager =
  sessions :: "string \<rightharpoonup> session"
  initialized :: bool

definition SESSION_VALIDITY_HOURS :: int where
  "SESSION_VALIDITY_HOURS = 24"

text \<open>
  \<open>diffHours = (now - sessionTime) / (1000 * 60 * 60); return diffHours < 24\<close>, on
  integer milliseconds: the quotient is below 24 exactly when the difference is below
  \<open>24 * 3600000\<close>, also in double arithmetic.
\<close>

definition isSessionValid :: "int \<Rightarrow> session \<Rightarrow> bool" where
  "isSessionValid now sessionData =
     (case sessionData ''timestamp'' of
        None \<Rightarrow> False
      | Some Falsy \<Rightarrow> False
      | Some (Instant t) \<Rightarrow> now - t < SESSION_VALIDITY_HOURS * (1000 * 60 * 60)
      | Some v \<Rightarrow> False)"

definition session_file :: "string \<Rightarrow> string" where
  "session_file domain = domain @ ''.json''"

text \<open>\<open>file.replace('.json', '')\<close> removes the first occurrence.\<close>

fun remove_first :: "string \<Rightarrow> string \<Rightarrow> string" where
  "remove_first pat [] = []"
| "remove_first pat (c # cs) =
     (if prefix pat (c # cs) then drop (length pat) (c # cs) else c # remove_first pat cs)"

text \<open>\<open>fs.unlink\<close> and \<open>fs.writeFile\<close>: the flag tells whether the call succeeded.\<close>

definition unlink :: "string \<Rightarrow> disk \<Rightarrow> bool \<times> disk" where
  "unlink name d =
     (if unlink_fails d name \<or> map_of (entries d) name = None then (False, d)
      else (True, d\<lparr>entries := filter (\<lambda>(n, c). n \<noteq> name) (entries d)\<rparr>))"

definition writeFile :: "string \<Rightarrow> content \<Rightarrow> disk \<Rightarrow> bool \<times> disk" where
  "writeFile name c d =
     (if write_fails d name then (False, d)
      else (True, d\<lparr>entries := filter (\<lambda>(n, c). n \<noteq> name) (entries d) @ [(name, c)]\<rparr>))"

text \<open>
  The loop of \<open>initialize\<close> over the listing. Its inner \<open>catch\<close> skips a file that
  cannot be read, and also swallows a failing \<open>unlink\<close> of an expired one.
\<close>

fun load_files ::
    "int \<Rightarrow> (string \<times> content) list \<Rightarrow> session_manager \<times> disk \<Rightarrow> session_manager \<times> disk" where
  "load_files now [] (m, d) = (m, d)"
| "load_files now ((file, c) # rest) (m, d) =
     (if suffix ''.json'' file then
        (case c of
           Corrupt \<Rightarrow> load_files now rest (m, d)
         | Json sessionData \<Rightarrow>
             if isSessionValid now sessionData
             then load_files now rest
                    (m\<lparr>sessions := (sessions m)(remove_first ''.json'' file \<mapsto> sessionData)\<rparr>, d)
             else load_files now rest (m, snd (unlink file d)))
      else load_files now rest (m, d))"

definition sm_initialize :: "int \<Rightarrow> session_manager \<times> disk \<Rightarrow> string + session_manager \<times> disk" where
  "sm_initialize now md =
     (case md of (m, d) \<Rightarrow>
        if initialized m then Inr (m, d)
        else if broken_dir d then Inl ''EACCES: permission denied, scandir sessions''
        else (case load_files now (entries d) (m, d) of
                (m', d') \<Rightarrow> Inr (m'\<lparr>initialized := True\<rparr>, d')))"

text \<open>The object literal of \<open>saveSession\<close>; the spread of \<open>extraData\<close> comes last.\<close>

definition new_session :: "int \<Rightarrow> string list \<Rightarrow> session \<Rightarrow> session" where
  "new_session now cookies extraData =
     [''timestamp'' \<mapsto> Instant now, ''cookies'' \<mapsto> Cookies cookies] ++ extraData"

definition saveSession ::
    "int \<Rightarrow> string \<Rightarrow> string list \<Rightarrow> session \<Rightarrow> session_manager \<times> disk
       \<Rightarrow> string + bool \<times> session_manager \<times> disk" where
  "saveSession now domain cookies extraData md =
     (case sm_initialize now md of
        Inl err \<Rightarrow> Inl err
      | Inr (m, d) \<Rightarrow>
          (let sessionData = new_session now cookies extraData;
               m' = m\<lparr>sessions := (sessions m)(domain \<mapsto> sessionData)\<rparr>
           in case writeFile (session_file domain) (Json sessionData) d of
                (False, d') \<Rightarrow> Inr (False, m', d')
              | (True, d') \<Rightarrow> Inr (True, m', d')))"

definition getSession ::
    "int \<Rightarrow> string \<Rightarrow> session_manager \<times> disk
       \<Rightarrow> string + session option \<times> session_manager \<times> disk" where
  "getSession now domain md =
     (case sm_initialize now md of
        Inl err \<Rightarrow> Inl err
      | Inr (m, d) \<Rightarrow>
          (case sessions m domain of
             None \<Rightarrow> Inr (None, m, d)
           | Some session \<Rightarrow>
               if \<not> isSessionValid now session
               then Inr (None, m\<lparr>sessions := (sessions m)(domain := None)\<rparr>,
                         snd (unlink (session_file domain) d))
               else Inr (Some session, m, d)))"


subsection \<open>Concrete session stores\<close>

definition old_session :: session where
  "old_session = [''timestamp'' \<mapsto> Instant 0, ''cookies'' \<mapsto> Cookies [''sid=1'']]"

definition recent_session :: session where
  "recent_session = [''timestamp'' \<mapsto> Instant 89000000, ''cookies'' \<mapsto> Cookies [''sid=3'']]"

definition live_manager :: session_manager where
  "live_manager = \<lparr>sessions = [''vendor.example'' \<mapsto> recent_session], initialized = True\<rparr>"

definition stale_manager :: session_manager where
  "stale_manager = \<lparr>sessions = [''vendor.example'' \<mapsto> old_session], initialized = True\<rparr>"

definition fresh_manager :: session_manager where
  "fresh_manager = \<lparr>sessions = Map.empty, initialized = False\<rparr>"

definition good_disk :: disk where
  "good_disk =
     \<lparr>entries = [(''vendor.example.json'', Json old_session)], broken_dir = False,
      unlink_fails = (\<lambda>n. False), write_fails = (\<lambda>n. False)\<rparr>"

definition full_disk :: disk where
  "full_disk =
     \<lparr>entries = [], broken_dir = False,
      unlink_fails = (\<lambda>n. False), write_fails = (\<lambda>n. True)\<rparr>"

section \<open>Browser pool (services/browser-pool.js)\<close>

text \<open>
  \<open>getPage\<close> is an \<open>async\<close> function: between two of its \<open>await\<close>s other calls, timers
  and events run. The model is a step function on the state of the pool; a pending
  call of \<open>getPage\<close> is kept with the \<open>await\<close> it is suspended at, and an event is the
  settling of such an \<open>await\<close>, a timer, or a call from outside. The code between two
  \<open>await\<close>s runs in one step, as it does on the event loop.

  A tracked page is the object \<open>{page, id, inUse, domain}\<close>; ids are taken as unique and
  modelled by a counter.
\<close>

record page_data =
  page_id :: nat
  inUse :: bool

text \<open>
  Where a call of \<open>getPage(domain)\<close> stands: awaiting \<open>initialize()\<close>; awaiting
  \<open>page.evaluate\<close> on the page claimed at index \<open>i\<close> of the reuse loop; past the check
  \<open>pages[domain].length < maxPagesPerDomain\<close> and awaiting \<open>newPage()\<close> and the
  configuration of the page; in the polling loop; awaiting \<open>evaluate\<close> on a page claimed
  by the polling loop; the same after the 30 s timeout has rejected the promise;
  settled.
\<close>

datatype call_state =
    AwaitLaunch string
  | AwaitEvaluate string nat nat
  | AwaitNewPage string
  | Polling string
  | AwaitEvaluatePolled string nat
  | Abandoned string nat
  | Resolved nat
  | Rejected string

text \<open>What a disconnect handler can see of the page tracking when it is called.\<close>

record pool_view =
  seen_pages :: "(string \<times> page_data list) list"
  seen_timers :: "nat list"

record browser_pool =
  bp_browser :: bool
  bp_connected :: bool
  pages :: "(string \<times> page_data list) list"
  pageTimers :: "nat list"
  maxPagesPerDomain :: nat
  onDisconnect :: bool
  next_page :: nat
  next_call :: nat
  calls :: "(nat \<times> call_state) list"
  handler_calls :: "pool_view list"

text \<open>\<open>this.maxPagesPerDomain = options.maxPagesPerDomain || 2\<close>.\<close>

definition BrowserPool :: "nat \<Rightarrow> browser_pool" where
  "BrowserPool maxPages =
     \<lparr>bp_browser = False, bp_connected = False, pages = [], pageTimers = [],
      maxPagesPerDomain = (if maxPages = 0 then 2 else maxPages), onDisconnect = False,
      next_page = 0, next_call = 0, calls = [], handler_calls = []\<rparr>"

definition set_call :: "nat \<Rightarrow> call_state \<Rightarrow> browser_pool \<Rightarrow> browser_pool" where
  "set_call c st p = p\<lparr>calls := AList.update c st (calls p)\<rparr>"

definition first_free_from :: "nat \<Rightarrow> page_data list \<Rightarrow> nat option" where
  "first_free_from i ps =
     (case filter (\<lambda>j. \<not> inUse (ps ! j)) [i..<length ps] of
        [] \<Rightarrow> None
      | j # js \<Rightarrow> Some j)"

text \<open>Claiming a free page: its idle timer is cleared and \<open>inUse\<close> is set.\<close>

definition claim :: "string \<Rightarrow> page_data list \<Rightarrow> nat \<Rightarrow> browser_pool \<Rightarrow> browser_pool" where
  "claim domain ps j p =
     p\<lparr>pageTimers := removeAll (page_id (ps ! j)) (pageTimers p),
       pages := AList.update domain (ps[j := (ps ! j)\<lparr>inUse := True\<rparr>]) (pages p)\<rparr>"

text \<open>
  The \<open>for\<close> loop over \<open>this.pages[domain]\<close> from index \<open>i\<close>, up to its first \<open>await\<close>,
  and below it the cap check, up to \<open>await this.browser.newPage()\<close> or to the polling
  promise.
\<close>

definition reuse_loop :: "nat \<Rightarrow> string \<Rightarrow> nat \<Rightarrow> browser_pool \<Rightarrow> browser_pool" where
  "reuse_loop i domain c p =
     (case map_of (pages p) domain of
        None \<Rightarrow>
          set_call c (Rejected ''Cannot read properties of undefined (reading 'length')'') p
      | Some ps \<Rightarrow>
          (case first_free_from i ps of
             Some j \<Rightarrow> set_call c (AwaitEvaluate domain j (page_id (ps ! j))) (claim domain ps j p)
           | None \<Rightarrow>
               if length ps < maxPagesPerDomain p
               then set_call c (AwaitNewPage domain) p
               else set_call c (Polling domain) p))"

definition after_launch :: "string \<Rightarrow> nat \<Rightarrow> browser_pool \<Rightarrow> browser_pool" where
  "after_launch domain c p =
     (if bp_browser p \<and> \<not> bp_connected p
      then set_call c (Rejected ''Browser is disconnected'') p
      else reuse_loop 0 domain c
             (case map_of (pages p) domain of
                None \<Rightarrow> p\<lparr>pages := AList.update domain [] (pages p)\<rparr>
              | Some ps \<Rightarrow> p))"

definition getPage :: "string \<Rightarrow> nat \<Rightarrow> browser_pool \<Rightarrow> browser_pool" where
  "getPage domain c p =
     (if \<not> bp_browser p then set_call c (AwaitLaunch domain) p
      else after_launch domain c p)"

text \<open>\<open>cleanupResources\<close> keeps the browser reference.\<close>

definition cleanupResources :: "browser_pool \<Rightarrow> browser_pool" where
  "cleanupResources p = p\<lparr>pages := [], pageTimers := []\<rparr>"

definition view :: "browser_pool \<Rightarrow> pool_view" where
  "view p = \<lparr>seen_pages = pages p, seen_timers = pageTimers p\<rparr>"

text \<open>
  The listener of the browser's \<open>disconnected\<close> event: \<open>wasInitialized\<close> is read, then
  \<open>cleanupResources()\<close> runs, then the handler is called.
\<close>

definition on_disconnected :: "browser_pool \<Rightarrow> browser_pool" where
  "on_disconnected p =
     (let wasInitialized = bp_browser p;
          p1 = cleanupResources (p\<lparr>bp_connected := False\<rparr>)
      in if wasInitialized \<and> onDisconnect p1
         then p1\<lparr>handler_calls := handler_calls p1 @ [view p1]\<rparr>
         else p1)"

text \<open>\<open>page.release()\<close> of the proxy, and the idle timer it arms.\<close>

definition release :: "nat \<Rightarrow> browser_pool \<Rightarrow> browser_pool" where
  "release pid p =
     p\<lparr>pages := map (\<lambda>(d, ps). (d, map (\<lambda>pd. if page_id pd = pid then pd\<lparr>inUse := False\<rparr> else pd) ps))
                  (pages p),
       pageTimers := pid # removeAll pid (pageTimers p)\<rparr>"

definition idle_timeout :: "nat \<Rightarrow> browser_pool \<Rightarrow> browser_pool" where
  "idle_timeout pid p =
     (if pid \<in> set (pageTimers p)
      then p\<lparr>pages := map (\<lambda>(d, ps). (d, filter (\<lambda>pd. \<not> (page_id pd = pid \<and> \<not> inUse pd)) ps))
                       (pages p),
             pageTimers := removeAll pid (pageTimers p)\<rparr>
      else p)"

datatype pool_event =
    Call string
  | LaunchDone nat "string option"
  | EvaluateDone nat bool
  | NewPageDone nat "string option"
  | Tick nat
  | Timeout nat
  | Release nat
  | IdleTimeout nat
  | Disconnect
  | SetDisconnectHandler

text \<open>
  \<open>page.evaluate(() => true)\<close> settles. In the reuse loop a failure splices index \<open>i\<close>
  out of the array and the loop goes on; in the polling loop it removes the page and
  calls \<open>getPage\<close> again.
\<close>

definition evaluate_done :: "nat \<Rightarrow> bool \<Rightarrow> browser_pool \<Rightarrow> browser_pool" where
  "evaluate_done c ok p =
     (case map_of (calls p) c of
        Some (AwaitEvaluate domain j pid) \<Rightarrow>
          if ok then set_call c (Resolved pid) p
          else (case map_of (pages p) domain of
                  None \<Rightarrow>
                    set_call c
                      (Rejected ''Cannot read properties of undefined (reading 'splice')'') p
                | Some ps \<Rightarrow>
                    reuse_loop j domain c
                      (p\<lparr>pages := AList.update domain (take j ps @ drop (j + 1) ps) (pages p)\<rparr>))
      | Some (AwaitEvaluatePolled domain pid) \<Rightarrow>
          if ok then set_call c (Resolved pid) p
          else (case map_of (pages p) domain of
                  None \<Rightarrow> p
                | Some ps \<Rightarrow>
                    getPage domain c
                      (p\<lparr>pages := AList.update domain
                                     (filter (\<lambda>pd. page_id pd \<noteq> pid) ps) (pages p)\<rparr>))
      | Some (Abandoned domain pid) \<Rightarrow>
          if ok then p
          else (case map_of (pages p) domain of
                  None \<Rightarrow> p
                | Some ps \<Rightarrow>
                    getPage domain c
                      (p\<lparr>pages := AList.update domain
                                     (filter (\<lambda>pd. page_id pd \<noteq> pid) ps) (pages p)\<rparr>))
      | _ \<Rightarrow> p)"

text \<open>
  The creation of the page settles: on success the new entry is pushed with
  \<open>inUse: true\<close>. Nothing is checked again at this point.
\<close>

definition creation_failed :: "nat \<Rightarrow> string \<Rightarrow> browser_pool \<Rightarrow> browser_pool" where
  "creation_failed c msg p =
     (if is_disconnect_message msg \<or> \<not> bp_browser p \<or> \<not> bp_connected p
      then set_call c (Rejected (''Browser disconnection: '' @ msg)) p
      else set_call c (Rejected msg) p)"

definition new_page_done :: "nat \<Rightarrow> string option \<Rightarrow> browser_pool \<Rightarrow> browser_pool" where
  "new_page_done c r p =
     (case map_of (calls p) c of
        Some (AwaitNewPage domain) \<Rightarrow>
          (case r of
             Some msg \<Rightarrow> creation_failed c msg p
           | None \<Rightarrow>
               (case map_of (pages p) domain of
                  None \<Rightarrow>
                    creation_failed c ''Cannot read properties of undefined (reading 'push')'' p
                | Some ps \<Rightarrow>
                    set_call c (Resolved (next_page p))
                      (p\<lparr>pages := AList.update domain
                                     (ps @ [\<lparr>page_id = next_page p, inUse = True\<rparr>]) (pages p),
                         next_page := next_page p + 1\<rparr>)))
      | _ \<Rightarrow> p)"

text \<open>One run of the 500 ms interval of the polling promise, and its 30 s timeout.\<close>

definition tick :: "nat \<Rightarrow> browser_pool \<Rightarrow> browser_pool" where
  "tick c p =
     (case map_of (calls p) c of
        Some (Polling domain) \<Rightarrow>
          if \<not> bp_browser p \<or> \<not> bp_connected p
          then set_call c (Rejected ''Browser disconnected while waiting for available page'') p
          else (case map_of (pages p) domain of
                  None \<Rightarrow> p
                | Some ps \<Rightarrow>
                    (case first_free_from 0 ps of
                       None \<Rightarrow> p
                     | Some j \<Rightarrow>
                         set_call c (AwaitEvaluatePolled domain (page_id (ps ! j)))
                           (claim domain ps j p)))
      | _ \<Rightarrow> p)"

definition wait_timeout :: "nat \<Rightarrow> browser_pool \<Rightarrow> browser_pool" where
  "wait_timeout c p =
     (case map_of (calls p) c of
        Some (Polling domain) \<Rightarrow>
          set_call c (Rejected (''Timeout waiting for available page for domain: '' @ domain)) p
      | Some (AwaitEvaluatePolled domain pid) \<Rightarrow> set_call c (Abandoned domain pid) p
      | _ \<Rightarrow> p)"

definition launch_done :: "nat \<Rightarrow> string option \<Rightarrow> browser_pool \<Rightarrow> browser_pool" where
  "launch_done c r p =
     (case map_of (calls p) c of
        Some (AwaitLaunch domain) \<Rightarrow>
          (case r of
             Some msg \<Rightarrow> set_call c (Rejected msg) p
           | None \<Rightarrow> after_launch domain c (p\<lparr>bp_browser := True, bp_connected := True\<rparr>))
      | _ \<Rightarrow> p)"

fun pool_step :: "browser_pool \<Rightarrow> pool_event \<Rightarrow> browser_pool" where
  "pool_step p (Call domain) = getPage domain (next_call p) (p\<lparr>next_call := next_call p + 1\<rparr>)"
| "pool_step p (LaunchDone c r) = launch_done c r p"
| "pool_step p (EvaluateDone c ok) = evaluate_done c ok p"
| "pool_step p (NewPageDone c r) = new_page_done c r p"
| "pool_step p (Tick c) = tick c p"
| "pool_step p (Timeout c) = wait_timeout c p"
| "pool_step p (Release pid) = release pid p"
| "pool_step p (IdleTimeout pid) = idle_timeout pid p"
| "pool_step p Disconnect = on_disconnected p"
| "pool_step p SetDisconnectHandler = p\<lparr>onDisconnect := True\<rparr>"

definition run_pool :: "pool_event list \<Rightarrow> browser_pool \<Rightarrow> browser_pool" where
  "run_pool evs p = foldl pool_step p evs"

definition pages_of :: "string \<Rightarrow> browser_pool \<Rightarrow> page_data list" where
  "pages_of domain p = (case map_of (pages p) domain of None \<Rightarrow> [] | Some ps \<Rightarrow> ps)"

subsection \<open>Runs in which page creations do not overlap\<close>

text \<open>A call is creating a page: it is between the cap check and the \<open>push\<close>.\<close>

definition creating :: "browser_pool \<Rightarrow> nat \<Rightarrow> string \<Rightarrow> bool" where
  "creating p c domain = (map_of (calls p) c = Some (AwaitNewPage domain))"

definition within_cap :: "browser_pool \<Rightarrow> bool" where
  "within_cap p = (\<forall>domain. length (pages_of domain p) \<le> maxPagesPerDomain p)"

text \<open>
  The cap holds, at most one call is creating a page, and the domain of that call is
  below the cap.
\<close>

definition serial_inv :: "browser_pool \<Rightarrow> bool" where
  "serial_inv p =
     (within_cap p \<and>
      (\<forall>c d c' d'. creating p c d \<and> creating p c' d' \<longrightarrow> c = c') \<and>
      (\<forall>c d. creating p c d \<longrightarrow> length (pages_of d p) < maxPagesPerDomain p))"

text \<open>
  A run is serial when, as long as a call is creating a page, the next event is the
  end of that creation: nothing else happens between the check and the \<open>push\<close>.
\<close>

fun serial :: "browser_pool \<Rightarrow> pool_event list \<Rightarrow> bool" where
  "serial p [] = True"
| "serial p (ev # evs) =
     ((\<forall>c d. creating p c d \<longrightarrow> (\<exists>r. ev = NewPageDone c r)) \<and>
      serial (pool_step p ev) evs)"

definition idle :: "browser_pool \<Rightarrow> bool" where
  "idle p = (\<forall>c d. \<not> creating p c d)"

subsection \<open>Concrete pools\<close>

text \<open>A pool with the default options whose browser is running.\<close>

definition launched_pool :: browser_pool where
  "launched_pool = (BrowserPool 0)\<lparr>bp_browser := True, bp_connected := True\<rparr>"

text \<open>Three calls for one domain, started before the first page exists.\<close>

definition three_calls :: "pool_event list" where
  "three_calls =
     [Call ''vendor.example'', Call ''vendor.example'', Call ''vendor.example'',
      NewPageDone 0 None, NewPageDone 1 None, NewPageDone 2 None]"

text \<open>A pool with a handler and one released page whose idle timer is armed.\<close>

definition idle_pool :: browser_pool where
  "idle_pool =
     run_pool [SetDisconnectHandler, Call ''vendor.example'', NewPageDone 0 None, Release 0]
       launched_pool"

section \<open>Properties of the recovery orchestrator\<close>

lemma log_simps [simp]:
  "log (log_event ev s) = log s @ [ev]"
  "log (after_item e i s) = log s @ [LogProcessing i]"
  "log (relaunch_failed msg s) =
     log s @ [LogRecoveryAttempt (recoveryAttempts s + 1), LogReinitializing, LogRecoveryError msg]"
  "log (relaunched i s) =
     log s @ [LogRecoveryAttempt (recoveryAttempts s + 1), LogReinitializing, LogResuming i]"
  "log (finish_recovery n i r s) = log s"
  "log (close_unless_recovering s) = log s"
  by (simp_all add: log_event_def after_item_def relaunch_failed_def relaunched_def
        begin_recovery_def finish_recovery_def close_unless_recovering_def)

lemma attempts_simps [simp]:
  "recoveryAttempts (log_event ev s) = recoveryAttempts s"
  "recoveryAttempts (after_item e i s) = recoveryAttempts s"
  "recoveryAttempts (relaunch_failed msg s) = recoveryAttempts s + 1"
  "recoveryAttempts (relaunched i s) = recoveryAttempts s + 1"
  by (simp_all add: log_event_def after_item_def relaunch_failed_def relaunched_def
        begin_recovery_def)

lemma browser_simps [simp]:
  "browser (log_event ev s) = browser s"
  "browser (after_item e i s) = (browser s \<and> \<not> pool_closed e (runs s))"
  "browser (relaunched i s) = True"
  "runs (log_event ev s) = runs s"
  "runs (after_item e i s) = runs s + 1"
  "runs (relaunched i s) = runs s"
  "launches (log_event ev s) = launches s"
  "launches (after_item e i s) = launches s"
  by (simp_all add: log_event_def after_item_def relaunched_def begin_recovery_def)

lemma give_ups_simps [simp]:
  "give_ups [] = 0"
  "give_ups (ev # evs) = (if gives_up ev then 1 else 0) + give_ups evs"
  "give_ups (xs @ ys) = give_ups xs + give_ups ys"
  by (simp_all add: give_ups_def)

lemma exhaustions_simps [simp]:
  "exhaustions [] = 0"
  "exhaustions (ev # evs) = (if is_exceeded ev then 1 else 0) + exhaustions evs"
  "exhaustions (xs @ ys) = exhaustions xs + exhaustions ys"
  by (simp_all add: exhaustions_def)

lemma cycles_simps [simp]:
  "recovery_cycles [] = 0"
  "recovery_cycles (ev # evs) = (if is_attempt ev then 1 else 0) + recovery_cycles evs"
  "recovery_cycles (xs @ ys) = recovery_cycles xs + recovery_cycles ys"
  by (simp_all add: recovery_cycles_def)

lemma items_loop_done:
  "\<not> i < length items \<Longrightarrow> items_loop e items i res s = (res, s)"
  by (subst items_loop.simps) simp

lemma exceeded_returns:
  "MAX_RECOVERY_ATTEMPTS \<le> recoveryAttempts s \<Longrightarrow>
   recoverFromDisconnection e items i s =
     (RecoveryFailed ''Exceeded maximum recovery attempts'' i (length items),
      log_event LogExceeded s)"
  by (subst recoverFromDisconnection.simps) simp

lemma relaunch_resumes:
  "recoveryAttempts s < MAX_RECOVERY_ATTEMPTS \<Longrightarrow> launch e (launches s) = None \<Longrightarrow>
   recoverFromDisconnection e items i s =
     (case processRemainingItems e items i (relaunched i s) of
        (r, s') \<Rightarrow> (Processed r, finish_recovery (length items) i r s'))"
  by (subst recoverFromDisconnection.simps) (simp add: processRemainingItems_def)

lemma persistent_failure:
  assumes "always_disconnected e"
  shows "n = MAX_RECOVERY_ATTEMPTS - recoveryAttempts s \<Longrightarrow>
         \<exists>s'. recoverFromDisconnection e items i s =
               (RecoveryFailed ''Exceeded maximum recovery attempts'' i (length items), s') \<and>
              recovery_cycles (log s') = recovery_cycles (log s) + n"
proof (induction n arbitrary: s)
  case 0
  then have "MAX_RECOVERY_ATTEMPTS \<le> recoveryAttempts s" by simp
  then show ?case by (simp add: exceeded_returns)
next
  case (Suc n)
  then have lt: "\<not> MAX_RECOVERY_ATTEMPTS \<le> recoveryAttempts s" by simp
  obtain m where m: "launch e (launches s) = Some m" "is_disconnect_message m"
    using assms unfolding always_disconnected_def
    by (metis option.case_eq_if option.collapse)
  have step: "recoverFromDisconnection e items i s =
              recoverFromDisconnection e items i (relaunch_failed m s)"
    by (subst recoverFromDisconnection.simps) (simp add: lt m)
  have "n = MAX_RECOVERY_ATTEMPTS - recoveryAttempts (relaunch_failed m s)"
    using Suc.prems by simp
  from Suc.IH[OF this] obtain s' where
    "recoverFromDisconnection e items i (relaunch_failed m s) =
       (RecoveryFailed ''Exceeded maximum recovery attempts'' i (length items), s')"
    "recovery_cycles (log s') = recovery_cycles (log (relaunch_failed m s)) + n" by blast
  then show ?case unfolding step by auto
qed

text \<open>
  The invariant of the mutual recursion. For the loop: the final detail list extends
  the accumulated one, the success and failed counters grow by the number of records
  added, \<open>skipped\<close> never changes. For a recovery: a processed result is accounted
  for, and a failure object is returned only when the recovery gave up.
\<close>

lemma run_accounting:
  "items_loop e items i res s = (r', s') \<Longrightarrow>
     \<exists>ds. details r' = details res @ ds \<and>
          success r' + failed r' = success res + failed res + length ds \<and>
          skipped r' = skipped res \<and> covers items i (gave_up s s') ds"
  "recoverFromDisconnection e items i s = (rr, s') \<Longrightarrow>
     (case rr of
        Processed r \<Rightarrow>
          success r + failed r = length (details r) \<and> skipped r = 0 \<and>
          covers items i (gave_up s s') (details r)
      | RecoveryFailed m p t \<Rightarrow>
          p = i \<and> t = length items \<and> gave_up s s')"
proof (induction e items i res s and e items i s arbitrary: r' s' and rr s'
         rule: items_loop_recoverFromDisconnection.induct)
  case (1 e items i res s)
  show ?case
  proof (cases "i < length items")
    case False
    with "1.prems" show ?thesis
      by (simp add: items_loop_done covers_def)
  next
    case lt: True
    show ?thesis
    proof (cases "browser s")
      case False
      obtain rr where rr: "recoverFromDisconnection e items i
               (log_event LogNotConnected (s\<lparr>currentIndex := i\<rparr>)) = (rr, s')"
        and r': "r' = merge_results res rr"
        using "1.prems" lt False
        by (subst (asm) items_loop.simps) (auto split: prod.splits)
      from "1.IH"(1)[OF lt _ rr] False
      show ?thesis using r'
        by (cases rr) (auto simp: covers_def gave_up_def)
    next
      case br: True
      show ?thesis
      proof (cases "run_item e (runs s)")
        case (Returned ok upd outd err)
        let ?r = "\<lparr>r_success = ok, r_materialItem = items ! i,
                   r_updatedItemSources = upd, r_outdatedUrls = outd, r_error = err\<rparr>"
        have call: "items_loop e items (i + 1) (record_result res ?r) (after_item e i s) = (r', s')"
          using "1.prems" lt br Returned by (subst (asm) items_loop.simps) simp
        from "1.IH"(2)[OF lt _ Returned call] br obtain ds where
          ds: "details r' = details (record_result res ?r) @ ds"
              "success r' + failed r' =
                 success (record_result res ?r) + failed (record_result res ?r) + length ds"
              "skipped r' = skipped (record_result res ?r)"
              "covers items (i + 1) (gave_up (after_item e i s) s') ds"
          by auto
        have "covers items i (gave_up s s') (ItemDetail ?r # ds)"
          using ds(4) lt by (auto simp: covers_def gave_up_def Cons_nth_drop_Suc[symmetric])
        with ds show ?thesis
          by (intro exI[of _ "ItemDetail ?r # ds"]) (auto simp: record_result_def)
      next
        case (Threw msg)
        show ?thesis
        proof (cases "is_disconnect_message msg \<or> \<not> browser (after_item e i s)")
          case True
          obtain rr where rr: "recoverFromDisconnection e items i
                 (log_event (LogDisconnection msg) (after_item e i s)) = (rr, s')"
            and r': "r' = merge_results res rr"
            using "1.prems" lt br Threw True
            by (subst (asm) items_loop.simps) (auto split: prod.splits)
          from "1.IH"(3)[OF lt _ Threw True rr] br
          show ?thesis using r'
            by (cases rr) (auto simp: covers_def gave_up_def)
        next
          case False
          have call: "items_loop e items (i + 1) (record_error res (items ! i) msg)
                 (log_event (LogItemError (mi_id (items ! i)) msg) (after_item e i s)) = (r', s')"
            using "1.prems" lt br Threw False by (subst (asm) items_loop.simps) simp
          let ?d = "ErrorDetail (mi_id (items ! i)) (mi_name (items ! i)) msg"
          from "1.IH"(4)[OF lt _ Threw False call] br obtain ds where
            ds: "details r' = details (record_error res (items ! i) msg) @ ds"
                "success r' + failed r' =
                   success (record_error res (items ! i) msg) +
                   failed (record_error res (items ! i) msg) + length ds"
                "skipped r' = skipped (record_error res (items ! i) msg)"
                "covers items (i + 1)
                   (gave_up (log_event (LogItemError (mi_id (items ! i)) msg) (after_item e i s)) s')
                   ds"
            by auto
          have "covers items i (gave_up s s') (?d # ds)"
            using ds(4) lt by (auto simp: covers_def gave_up_def Cons_nth_drop_Suc[symmetric])
          with ds show ?thesis
            by (intro exI[of _ "?d # ds"]) (auto simp: record_error_def)
        qed
      qed
    qed
  qed
next
  case (2 e items startIndex s)
  show ?case
  proof (cases "MAX_RECOVERY_ATTEMPTS \<le> recoveryAttempts s")
    case True
    with "2.prems" show ?thesis
      by (auto simp: exceeded_returns gave_up_def)
  next
    case lt: False
    show ?thesis
    proof (cases "launch e (launches s)")
      case (Some msg)
      show ?thesis
      proof (cases "is_disconnect_message msg")
        case True
        have "recoverFromDisconnection e items startIndex (relaunch_failed msg s) = (rr, s')"
          using "2.prems" lt Some True by (subst (asm) recoverFromDisconnection.simps) simp
        from "2.IH"(2)[OF lt Some True this] show ?thesis
          by (cases rr) (auto simp: covers_def gave_up_def)
      next
        case False
        with "2.prems" lt Some show ?thesis
          by (subst (asm) recoverFromDisconnection.simps) (auto simp: gave_up_def)
      qed
    next
      case None
      obtain r s1 where call:
          "items_loop e items startIndex empty_results (relaunched startIndex s) = (r, s1)"
        and rr: "rr = Processed r" and s': "s' = finish_recovery (length items) startIndex r s1"
        using "2.prems" lt None
        by (subst (asm) recoverFromDisconnection.simps) (auto split: prod.splits)
      from "2.IH"(1)[OF lt None call] show ?thesis
        using rr s' by (auto simp: empty_results_def covers_def gave_up_def)
    qed
  qed
qed

lemma contained_step:
  assumes "i < length items" "browser s" "run_item e (runs s) = Threw msg"
    "\<not> is_disconnect_message msg" "\<not> pool_closed e (runs s)"
  shows "items_loop e items i res s =
           items_loop e items (i + 1) (record_error res (items ! i) msg)
             (log_event (LogItemError (mi_id (items ! i)) msg) (after_item e i s))"
  using assms by (subst items_loop.simps) simp

lemma contained_run:
  assumes "no_disconnection e"
  shows "browser s \<Longrightarrow> n = length items - i \<Longrightarrow>
         \<exists>r' s'. items_loop e items i res s = (r', s') \<and>
            details r' =
              details res @ map (\<lambda>j. expected_detail e (runs s + j) (items ! (i + j))) [0..<n] \<and>
            recoveryAttempts s' = recoveryAttempts s \<and>
            recovery_cycles (log s') = recovery_cycles (log s) \<and> browser s' \<and>
            runs s' = runs s + n \<and> isRecovering s' = isRecovering s"
proof (induction n arbitrary: i res s)
  case 0
  then show ?case by (simp add: items_loop_done)
next
  case (Suc n)
  then have lt: "i < length items" and n: "n = length items - (i + 1)" by auto
  have nc: "\<not> pool_closed e (runs s)" using assms by (simp add: no_disconnection_def)
  have upt: "[0..<Suc n] = 0 # map Suc [0..<n]"
    by (simp add: map_Suc_upt upt_conv_Cons del: upt_Suc)
  show ?case
  proof (cases "run_item e (runs s)")
    case (Returned ok upd outd err)
    let ?res = "record_result res \<lparr>r_success = ok, r_materialItem = items ! i,
                   r_updatedItemSources = upd, r_outdatedUrls = outd, r_error = err\<rparr>"
    have step: "items_loop e items i res s = items_loop e items (i + 1) ?res (after_item e i s)"
      using lt Suc.prems Returned by (subst items_loop.simps) simp
    have b: "browser (after_item e i s)" using Suc.prems nc by simp
    have hd: "expected_detail e (runs s) (items ! i) =
                ItemDetail \<lparr>r_success = ok, r_materialItem = items ! i,
                   r_updatedItemSources = upd, r_outdatedUrls = outd, r_error = err\<rparr>"
      by (simp add: expected_detail_def Returned)
    have rec: "isRecovering (after_item e i s) = isRecovering s"
      by (simp add: after_item_def)
    from Suc.IH[OF b n, of ?res] show ?thesis
      unfolding step upt
      by (auto simp: record_result_def hd comp_def rec)
  next
    case (Threw msg)
    have nd: "\<not> is_disconnect_message msg"
      using assms Threw unfolding no_disconnection_def
      by (metis run_outcome.simps(6))
    let ?res = "record_error res (items ! i) msg"
    let ?s = "log_event (LogItemError (mi_id (items ! i)) msg) (after_item e i s)"
    have step: "items_loop e items i res s = items_loop e items (i + 1) ?res ?s"
      using lt Suc.prems Threw nd nc by (simp add: contained_step)
    have b: "browser ?s" using Suc.prems nc by simp
    have hd: "expected_detail e (runs s) (items ! i) =
                ErrorDetail (mi_id (items ! i)) (mi_name (items ! i)) msg"
      by (simp add: expected_detail_def Threw)
    have rec: "isRecovering ?s = isRecovering s"
      by (simp add: after_item_def log_event_def)
    from Suc.IH[OF b n, of ?res] show ?thesis
      unfolding step upt
      by (auto simp: record_error_def hd comp_def rec)
  qed
qed

lemma cycles_bounded:
  "recoveryAttempts s \<le> MAX_RECOVERY_ATTEMPTS \<Longrightarrow>
     recovery_cycles (log (snd (items_loop e items i res s)))
       \<le> recovery_cycles (log s) + (MAX_RECOVERY_ATTEMPTS - recoveryAttempts s)"
  "recoveryAttempts s \<le> MAX_RECOVERY_ATTEMPTS \<Longrightarrow>
     recovery_cycles (log (snd (recoverFromDisconnection e items i s)))
       \<le> recovery_cycles (log s) + (MAX_RECOVERY_ATTEMPTS - recoveryAttempts s)"
proof (induction e items i res s and e items i s
         rule: items_loop_recoverFromDisconnection.induct)
  case (1 e items i res s)
  show ?case
  proof (cases "i < length items")
    case False
    then show ?thesis by (simp add: items_loop_done)
  next
    case lt: True
    show ?thesis
    proof (cases "browser s")
      case False
      have "snd (items_loop e items i res s) =
            snd (recoverFromDisconnection e items i
                   (log_event LogNotConnected (s\<lparr>currentIndex := i\<rparr>)))"
        using lt False by (subst items_loop.simps) (simp split: prod.splits)
      with "1.IH"(1)[OF lt _ ] False "1.prems" show ?thesis
        by (simp add: log_event_def)
    next
      case br: True
      show ?thesis
      proof (cases "run_item e (runs s)")
        case (Returned ok upd outd err)
        have "items_loop e items i res s =
              items_loop e items (i + 1)
                (record_result res \<lparr>r_success = ok, r_materialItem = items ! i,
                   r_updatedItemSources = upd, r_outdatedUrls = outd, r_error = err\<rparr>)
                (after_item e i s)"
          using lt br Returned by (subst items_loop.simps) simp
        with "1.IH"(2)[OF lt _ Returned] br "1.prems" show ?thesis by simp
      next
        case (Threw msg)
        show ?thesis
        proof (cases "is_disconnect_message msg \<or> \<not> browser (after_item e i s)")
          case True
          have "snd (items_loop e items i res s) =
                snd (recoverFromDisconnection e items i
                       (log_event (LogDisconnection msg) (after_item e i s)))"
            using lt br Threw True by (subst items_loop.simps) (simp split: prod.splits)
          with "1.IH"(3)[OF lt _ Threw True] br "1.prems" show ?thesis by simp
        next
          case False
          have "items_loop e items i res s =
                items_loop e items (i + 1) (record_error res (items ! i) msg)
                  (log_event (LogItemError (mi_id (items ! i)) msg) (after_item e i s))"
            using lt br Threw False by (subst items_loop.simps) simp
          with "1.IH"(4)[OF lt _ Threw False] br "1.prems" show ?thesis by simp
        qed
      qed
    qed
  qed
next
  case (2 e items startIndex s)
  show ?case
  proof (cases "MAX_RECOVERY_ATTEMPTS \<le> recoveryAttempts s")
    case True
    then show ?thesis by (simp add: exceeded_returns)
  next
    case lt: False
    then have le: "recoveryAttempts s + 1 \<le> MAX_RECOVERY_ATTEMPTS" by simp
    show ?thesis
    proof (cases "launch e (launches s)")
      case (Some msg)
      show ?thesis
      proof (cases "is_disconnect_message msg")
        case True
        have "recoverFromDisconnection e items startIndex s =
              recoverFromDisconnection e items startIndex (relaunch_failed msg s)"
          using lt Some True by (subst recoverFromDisconnection.simps) simp
        with "2.IH"(2)[OF lt Some True] le show ?thesis by simp
      next
        case False
        have "recoverFromDisconnection e items startIndex s =
              (RecoveryFailed msg startIndex (length items), relaunch_failed msg s)"
          using lt Some False by (subst recoverFromDisconnection.simps) simp
        with lt show ?thesis by simp
      qed
    next
      case None
      have "log (snd (recoverFromDisconnection e items startIndex s)) =
            log (snd (items_loop e items startIndex empty_results (relaunched startIndex s)))"
        using lt None by (subst recoverFromDisconnection.simps) (simp split: prod.splits)
      with "2.IH"(1)[OF lt None] le show ?thesis by simp
    qed
  qed
qed

text \<open>
  The attempts are found used up only after all of them have been made: a run in which
  that happens has gone through as many cycles as the counter left at its start.
\<close>

lemma exhausted_cycles:
  "recoveryAttempts s \<le> MAX_RECOVERY_ATTEMPTS \<Longrightarrow>
   exhausted s (snd (items_loop e items i res s)) \<Longrightarrow>
     recovery_cycles (log (snd (items_loop e items i res s)))
       = recovery_cycles (log s) + (MAX_RECOVERY_ATTEMPTS - recoveryAttempts s)"
  "recoveryAttempts s \<le> MAX_RECOVERY_ATTEMPTS \<Longrightarrow>
   exhausted s (snd (recoverFromDisconnection e items i s)) \<Longrightarrow>
     recovery_cycles (log (snd (recoverFromDisconnection e items i s)))
       = recovery_cycles (log s) + (MAX_RECOVERY_ATTEMPTS - recoveryAttempts s)"
proof (induction e items i res s and e items i s
         rule: items_loop_recoverFromDisconnection.induct)
  case (1 e items i res s)
  show ?case
  proof (cases "i < length items")
    case False
    with "1.prems" show ?thesis by (simp add: items_loop_done exhausted_def)
  next
    case lt: True
    show ?thesis
    proof (cases "browser s")
      case False
      let ?s = "log_event LogNotConnected (s\<lparr>currentIndex := i\<rparr>)"
      have eq: "snd (items_loop e items i res s) = snd (recoverFromDisconnection e items i ?s)"
        using lt False by (subst items_loop.simps) (simp split: prod.splits)
      have "recoveryAttempts ?s \<le> MAX_RECOVERY_ATTEMPTS"
        "exhausted ?s (snd (recoverFromDisconnection e items i ?s))"
        using "1.prems" eq by (simp_all add: exhausted_def log_event_def)
      from "1.IH"(1)[OF lt False this] show ?thesis
        unfolding eq by (simp add: log_event_def)
    next
      case br: True
      show ?thesis
      proof (cases "run_item e (runs s)")
        case (Returned ok upd outd err)
        let ?res = "record_result res \<lparr>r_success = ok, r_materialItem = items ! i,
                   r_updatedItemSources = upd, r_outdatedUrls = outd, r_error = err\<rparr>"
        let ?s = "after_item e i s"
        have eq: "items_loop e items i res s = items_loop e items (i + 1) ?res ?s"
          using lt br Returned by (subst items_loop.simps) simp
        have "recoveryAttempts ?s \<le> MAX_RECOVERY_ATTEMPTS"
          "exhausted ?s (snd (items_loop e items (i + 1) ?res ?s))"
          using "1.prems" eq by (simp_all add: exhausted_def)
        from "1.IH"(2)[OF lt _ Returned this] br show ?thesis
          unfolding eq by simp
      next
        case (Threw msg)
        show ?thesis
        proof (cases "is_disconnect_message msg \<or> \<not> browser (after_item e i s)")
          case True
          let ?s = "log_event (LogDisconnection msg) (after_item e i s)"
          have eq: "snd (items_loop e items i res s) =
                snd (recoverFromDisconnection e items i ?s)"
            using lt br Threw True by (subst items_loop.simps) (simp split: prod.splits)
          have "recoveryAttempts ?s \<le> MAX_RECOVERY_ATTEMPTS"
            "exhausted ?s (snd (recoverFromDisconnection e items i ?s))"
            using "1.prems" eq by (simp_all add: exhausted_def)
          from "1.IH"(3)[OF lt _ Threw True this] br show ?thesis
            unfolding eq by simp
        next
          case False
          let ?res = "record_error res (items ! i) msg"
          let ?s = "log_event (LogItemError (mi_id (items ! i)) msg) (after_item e i s)"
          have eq: "items_loop e items i res s = items_loop e items (i + 1) ?res ?s"
            using lt br Threw False by (subst items_loop.simps) simp
          have "recoveryAttempts ?s \<le> MAX_RECOVERY_ATTEMPTS"
            "exhausted ?s (snd (items_loop e items (i + 1) ?res ?s))"
            using "1.prems" eq by (simp_all add: exhausted_def)
          from "1.IH"(4)[OF lt _ Threw False this] br show ?thesis
            unfolding eq by simp
        qed
      qed
    qed
  qed
next
  case (2 e items startIndex s)
  show ?case
  proof (cases "MAX_RECOVERY_ATTEMPTS \<le> recoveryAttempts s")
    case True
    then show ?thesis by (simp add: exceeded_returns)
  next
    case lt: False
    then have le: "recoveryAttempts s + 1 \<le> MAX_RECOVERY_ATTEMPTS" by simp
    show ?thesis
    proof (cases "launch e (launches s)")
      case (Some msg)
      show ?thesis
      proof (cases "is_disconnect_message msg")
        case True
        let ?s = "relaunch_failed msg s"
        have eq: "recoverFromDisconnection e items startIndex s =
              recoverFromDisconnection e items startIndex ?s"
          using lt Some True by (subst recoverFromDisconnection.simps) simp
        have "recoveryAttempts ?s \<le> MAX_RECOVERY_ATTEMPTS"
          "exhausted ?s (snd (recoverFromDisconnection e items startIndex ?s))"
          using "2.prems" eq le by (simp_all add: exhausted_def)
        from "2.IH"(2)[OF lt Some True this] le show ?thesis
          unfolding eq by simp
      next
        case False
        have "recoverFromDisconnection e items startIndex s =
              (RecoveryFailed msg startIndex (length items), relaunch_failed msg s)"
          using lt Some False by (subst recoverFromDisconnection.simps) simp
        with "2.prems" show ?thesis by (simp add: exhausted_def)
      qed
    next
      case None
      let ?s = "relaunched startIndex s"
      have eq: "log (snd (recoverFromDisconnection e items startIndex s)) =
            log (snd (items_loop e items startIndex empty_results ?s))"
        using lt None by (subst recoverFromDisconnection.simps) (simp split: prod.splits)
      have "recoveryAttempts ?s \<le> MAX_RECOVERY_ATTEMPTS"
        "exhausted ?s (snd (items_loop e items startIndex empty_results ?s))"
        using "2.prems" eq le by (simp_all add: exhausted_def)
      from "2.IH"(1)[OF lt None this] le show ?thesis
        unfolding eq by simp
    qed
  qed
qed

text \<open>
  A recovery whose re-launch succeeds and which meets no further disconnection: one
  cycle, one record for each item from the start index on, and the recovery state is
  reset on the way out.
\<close>

lemma clean_recovery:
  assumes "no_disconnection e" "recoveryAttempts s < MAX_RECOVERY_ATTEMPTS"
    "launch e (launches s) = None"
  shows "\<exists>r s'. recoverFromDisconnection e items i s = (Processed r, s') \<and>
           details r =
             map (\<lambda>j. expected_detail e (runs s + j) (items ! (i + j))) [0..<length items - i] \<and>
           recovery_cycles (log s') = recovery_cycles (log s) + 1 \<and>
           recoveryAttempts s' = 0 \<and> \<not> isRecovering s'"
proof -
  let ?s = "relaunched i s"
  from contained_run[OF assms(1), of ?s "length items - i" items i empty_results]
  obtain r s1 where run: "items_loop e items i empty_results ?s = (r, s1)"
    and ds: "details r =
        map (\<lambda>j. expected_detail e (runs s + j) (items ! (i + j))) [0..<length items - i]"
    and cyc: "recovery_cycles (log s1) = recovery_cycles (log ?s)"
    by (auto simp: empty_results_def)
  from run_accounting(1)[OF run] ds
  have "success r + failed r = length items - i"
    by (auto simp: empty_results_def)
  then have reset: "finish_recovery (length items) i r s1 =
      s1\<lparr>isRecovering := False, recoveryAttempts := 0\<rparr>"
    by (simp add: finish_recovery_def)
  have "recoverFromDisconnection e items i s =
          (Processed r, finish_recovery (length items) i r s1)"
    using assms(2,3) run by (simp add: relaunch_resumes processRemainingItems_def)
  with ds cyc reset show ?thesis by simp
qed

lemmas run_defs = processRemainingItems_def items_loop.simps recoverFromDisconnection.simps
  log_event_def after_item_def relaunch_failed_def relaunched_def begin_recovery_def
  finish_recovery_def MAX_RECOVERY_ATTEMPTS_def empty_results_def record_result_def
  record_error_def is_disconnect_message_def sublist_code

subsection \<open>What \<open>processMaterialItem\<close> hands to the loop\<close>

text \<open>
  \<open>processMaterialItem\<close> returns a result object whatever happens inside it, so the
  \<open>catch\<close> of the loop is not reached from it, and an environment of the program meets
  a disconnection only as a missing browser reference at the head of the loop.
\<close>

lemma processMaterialItem_returns:
  "\<exists>ok upd outd err. processMaterialItem ie = Returned ok upd outd err"
  by (auto simp: processMaterialItem_def split: sum.splits prod.splits)

lemma program_env_simps [simp]:
  "launch (program_env l ies c) = l"
  "run_item (program_env l ies c) k = processMaterialItem (ies k)"
  "pool_closed (program_env l ies c) = c"
  by (simp_all add: program_env_def)

lemma program_no_disconnection:
  "no_disconnection (program_env l ies (\<lambda>k. False))"
  using processMaterialItem_returns
  by (auto simp: no_disconnection_def split: run_outcome.splits) (metis run_outcome.distinct(1))



lemma timed_out_item_result:
  "processMaterialItem timed_out_item = Returned False None (Some []) None"
  by (simp add: processMaterialItem_def item_body_def timed_out_item_def)

lemma priced_result:
  "processMaterialItem (priced u) = Returned True (Some [u]) (Some []) None"
  by (simp add: processMaterialItem_def item_body_def priced_def)

subsection \<open>Recovery bound\<close>

text \<open>
  The run of \<open>relapsing_env\<close> on two items, from a missing browser reference: the first
  re-launch succeeds, \<open>item_a\<close> is processed and the browser is lost again; the
  recovery nested at index 1 uses up the four attempts left and gives up, and its
  failure object is merged away by the loop.
\<close>

lemma relapsing_run:
  "recoverFromDisconnection relapsing_env [item_a, item_b] 0 after_previous_batch =
     (Processed
        \<lparr>success = 0, failed = 1, skipped = 0, outdated = 0, materialUpdates = 0,
         details =
           [ItemDetail \<lparr>r_success = False, r_materialItem = item_a,
              r_updatedItemSources = None, r_outdatedUrls = Some [], r_error = None\<rparr>],
         updatedItemSources = []\<rparr>,
      \<lparr>recoveryAttempts = 5, isRecovering = True, currentIndex = 1, isInitialized = True,
       browser = False, launches = 6, runs = 1,
       log = [LogRecoveryAttempt 1, LogReinitializing, LogResuming 0, LogProcessing 0,
              LogNotConnected,
              LogRecoveryAttempt 2, LogReinitializing,
              LogRecoveryError ''Protocol error (Target.setDiscoverTargets): Target closed.'',
              LogRecoveryAttempt 3, LogReinitializing,
              LogRecoveryError ''Protocol error (Target.setDiscoverTargets): Target closed.'',
              LogRecoveryAttempt 4, LogReinitializing,
              LogRecoveryError ''Protocol error (Target.setDiscoverTargets): Target closed.'',
              LogRecoveryAttempt 5, LogReinitializing,
              LogRecoveryError ''Protocol error (Target.setDiscoverTargets): Target closed.'',
              LogExceeded]\<rparr>)"
  by (simp add: relapsing_env_def timed_out_item_result after_previous_batch_def run_defs)

text \<open>
  C1 (recovery bound), as the claim states it, at two concrete runs of
  \<open>recoverFromDisconnection\<close> at index 0 of two items. In both the browser does not stay
  connected: the reference is missing again at every later head of the loop. In the
  first every re-launch succeeds: the recovery ends after 2 cycles, not 5, because the
  items run out, and it returns a results object with both items failed. In the second
  only the first re-launch succeeds: 5 cycles are gone through and the attempts are
  exhausted, but what the recovery returns is the results object with one record, not
  the failure object.
\<close>

theorem recovery_bound_counterexample:
  "launch unstable_env 1 = None \<and> launch unstable_env 2 = None \<and>
   pool_closed unstable_env 0 \<and> pool_closed unstable_env 1 \<and>
   fst (recoverFromDisconnection unstable_env [item_a, item_b] 0 after_previous_batch) =
     Processed
       \<lparr>success = 0, failed = 2, skipped = 0, outdated = 0, materialUpdates = 0,
        details =
          [ItemDetail \<lparr>r_success = False, r_materialItem = item_a,
             r_updatedItemSources = None, r_outdatedUrls = Some [], r_error = None\<rparr>,
           ItemDetail \<lparr>r_success = False, r_materialItem = item_b,
             r_updatedItemSources = None, r_outdatedUrls = Some [], r_error = None\<rparr>],
        updatedItemSources = []\<rparr> \<and>
   recovery_cycles
     (log (snd (recoverFromDisconnection unstable_env [item_a, item_b] 0 after_previous_batch)))
     = 2 \<and>
   (2::nat) \<noteq> MAX_RECOVERY_ATTEMPTS \<and>
   launch relapsing_env 1 = None \<and> pool_closed relapsing_env 0 \<and>
   launch relapsing_env 2 =
     Some ''Protocol error (Target.setDiscoverTargets): Target closed.'' \<and>
   is_disconnect_message ''Protocol error (Target.setDiscoverTargets): Target closed.'' \<and>
   fst (recoverFromDisconnection relapsing_env [item_a, item_b] 0 after_previous_batch) =
     Processed
       \<lparr>success = 0, failed = 1, skipped = 0, outdated = 0, materialUpdates = 0,
        details =
          [ItemDetail \<lparr>r_success = False, r_materialItem = item_a,
             r_updatedItemSources = None, r_outdatedUrls = Some [], r_error = None\<rparr>],
        updatedItemSources = []\<rparr> \<and>
   recovery_cycles
     (log (snd (recoverFromDisconnection relapsing_env [item_a, item_b] 0 after_previous_batch)))
     = MAX_RECOVERY_ATTEMPTS \<and>
   LogExceeded \<in> set
     (log (snd (recoverFromDisconnection relapsing_env [item_a, item_b] 0 after_previous_batch)))"
proof -
  have "launch unstable_env 1 = None \<and> launch unstable_env 2 = None \<and>
   pool_closed unstable_env 0 \<and> pool_closed unstable_env 1 \<and>
   fst (recoverFromDisconnection unstable_env [item_a, item_b] 0 after_previous_batch) =
     Processed
       \<lparr>success = 0, failed = 2, skipped = 0, outdated = 0, materialUpdates = 0,
        details =
          [ItemDetail \<lparr>r_success = False, r_materialItem = item_a,
             r_updatedItemSources = None, r_outdatedUrls = Some [], r_error = None\<rparr>,
           ItemDetail \<lparr>r_success = False, r_materialItem = item_b,
             r_updatedItemSources = None, r_outdatedUrls = Some [], r_error = None\<rparr>],
        updatedItemSources = []\<rparr> \<and>
   recovery_cycles
     (log (snd (recoverFromDisconnection unstable_env [item_a, item_b] 0 after_previous_batch)))
     = 2 \<and>
   (2::nat) \<noteq> MAX_RECOVERY_ATTEMPTS"
    by (simp add: unstable_env_def timed_out_item_result after_previous_batch_def run_defs)
  moreover have "launch relapsing_env 1 = None \<and> pool_closed relapsing_env 0 \<and>
      launch relapsing_env 2 =
        Some ''Protocol error (Target.setDiscoverTargets): Target closed.'' \<and>
      is_disconnect_message ''Protocol error (Target.setDiscoverTargets): Target closed.''"
    by (simp add: relapsing_env_def is_disconnect_message_def)
  ultimately show ?thesis
    by (simp add: relapsing_run MAX_RECOVERY_ATTEMPTS_def)
qed

text \<open>
  C1, amended. Whatever the environment does, \<open>recoverFromDisconnection\<close> returns (it is
  a total function) and goes through no more recovery cycles than the bound leaves: at
  most \<open>MAX_RECOVERY_ATTEMPTS = 5\<close> from a counter at 0, and exactly that many in every
  run in which the attempts are found used up. When the browser never comes
  back (every re-launch throws a disconnection-class error), it goes through exactly 5
  cycles and returns the failure object. Every failure object it returns carries
  \<open>processed = startIndex\<close> and \<open>total = items.length\<close>. When the re-launch succeeds, it
  returns the results of \<open>processRemainingItems\<close> resumed at the start index, whatever
  happens during that processing: the failure object of a recovery nested in it is
  merged away there. If no further disconnection is met, that is one record for
  each item from the start index on, after one cycle, with the recovery state reset.
\<close>

theorem recovery_bound:
  "MAX_RECOVERY_ATTEMPTS = 5 \<and>
   (recoveryAttempts s \<le> MAX_RECOVERY_ATTEMPTS \<longrightarrow>
      recovery_cycles (log (snd (recoverFromDisconnection e items i s)))
        \<le> recovery_cycles (log s) + (MAX_RECOVERY_ATTEMPTS - recoveryAttempts s)) \<and>
   (recoveryAttempts s \<le> MAX_RECOVERY_ATTEMPTS \<and>
    exhausted s (snd (recoverFromDisconnection e items i s)) \<longrightarrow>
      recovery_cycles (log (snd (recoverFromDisconnection e items i s)))
        = recovery_cycles (log s) + (MAX_RECOVERY_ATTEMPTS - recoveryAttempts s)) \<and>
   (always_disconnected e \<and> recoveryAttempts s = 0 \<longrightarrow>
      (\<exists>s'. recoverFromDisconnection e items i s =
              (RecoveryFailed ''Exceeded maximum recovery attempts'' i (length items), s') \<and>
            recovery_cycles (log s') = recovery_cycles (log s) + MAX_RECOVERY_ATTEMPTS)) \<and>
   (fst (recoverFromDisconnection e items i s) = RecoveryFailed m p t \<longrightarrow>
      p = i \<and> t = length items) \<and>
   (recoveryAttempts s < MAX_RECOVERY_ATTEMPTS \<and> launch e (launches s) = None \<longrightarrow>
      fst (recoverFromDisconnection e items i s) =
        Processed (fst (processRemainingItems e items i (relaunched i s)))) \<and>
   (recoveryAttempts s < MAX_RECOVERY_ATTEMPTS \<and> launch e (launches s) = None \<and>
    no_disconnection e \<longrightarrow>
      (\<exists>r s'. recoverFromDisconnection e items i s = (Processed r, s') \<and>
         details r =
           map (\<lambda>j. expected_detail e (runs s + j) (items ! (i + j))) [0..<length items - i] \<and>
         recovery_cycles (log s') = recovery_cycles (log s) + 1 \<and>
         recoveryAttempts s' = 0 \<and> \<not> isRecovering s'))"
proof (intro conjI impI)
  show "MAX_RECOVERY_ATTEMPTS = 5" by (simp add: MAX_RECOVERY_ATTEMPTS_def)
next
  assume "recoveryAttempts s \<le> MAX_RECOVERY_ATTEMPTS"
  then show "recovery_cycles (log (snd (recoverFromDisconnection e items i s)))
        \<le> recovery_cycles (log s) + (MAX_RECOVERY_ATTEMPTS - recoveryAttempts s)"
    by (rule cycles_bounded(2))
next
  assume "recoveryAttempts s \<le> MAX_RECOVERY_ATTEMPTS \<and>
    exhausted s (snd (recoverFromDisconnection e items i s))"
  then show "recovery_cycles (log (snd (recoverFromDisconnection e items i s)))
        = recovery_cycles (log s) + (MAX_RECOVERY_ATTEMPTS - recoveryAttempts s)"
    by (simp add: exhausted_cycles(2))
next
  assume "always_disconnected e \<and> recoveryAttempts s = 0"
  with persistent_failure[of e MAX_RECOVERY_ATTEMPTS s items i]
  show "\<exists>s'. recoverFromDisconnection e items i s =
              (RecoveryFailed ''Exceeded maximum recovery attempts'' i (length items), s') \<and>
            recovery_cycles (log s') = recovery_cycles (log s) + MAX_RECOVERY_ATTEMPTS"
    by simp
next
  assume a: "fst (recoverFromDisconnection e items i s) = RecoveryFailed m p t"
  obtain rr s' where run: "recoverFromDisconnection e items i s = (rr, s')"
    by (cases "recoverFromDisconnection e items i s") auto
  from run_accounting(2)[OF run] a run show "p = i" by simp
  from run_accounting(2)[OF run] a run show "t = length items" by simp
next
  assume "recoveryAttempts s < MAX_RECOVERY_ATTEMPTS \<and> launch e (launches s) = None"
  then show "fst (recoverFromDisconnection e items i s) =
        Processed (fst (processRemainingItems e items i (relaunched i s)))"
    by (simp add: relaunch_resumes split: prod.splits)
next
  assume "recoveryAttempts s < MAX_RECOVERY_ATTEMPTS \<and> launch e (launches s) = None \<and>
    no_disconnection e"
  then show "\<exists>r s'. recoverFromDisconnection e items i s = (Processed r, s') \<and>
         details r =
           map (\<lambda>j. expected_detail e (runs s + j) (items ! (i + j))) [0..<length items - i] \<and>
         recovery_cycles (log s') = recovery_cycles (log s) + 1 \<and>
         recoveryAttempts s' = 0 \<and> \<not> isRecovering s'"
    using clean_recovery[of e s items i] by blast
qed

lemma stuck_message:
  "is_disconnect_message ''Protocol error (Target.setDiscoverTargets): Target closed.''"
  by (simp add: is_disconnect_message_def)

lemma stuck_env_always_disconnected: "always_disconnected stuck_env"
  by (simp add: always_disconnected_def stuck_env_def stuck_message)

lemma steady_env_no_disconnection: "no_disconnection steady_env"
  unfolding steady_env_def by (rule program_no_disconnection)

theorem recovery_bound_witness:
  "always_disconnected stuck_env \<and> recoveryAttempts after_previous_batch = 0 \<and>
   recoveryAttempts after_previous_batch \<le> MAX_RECOVERY_ATTEMPTS \<and>
   (\<exists>s'. recoverFromDisconnection stuck_env [item_a, item_b] 1 after_previous_batch =
            (RecoveryFailed ''Exceeded maximum recovery attempts'' 1
               (length [item_a, item_b]), s') \<and>
          recovery_cycles (log s') = 5) \<and>
   exhausted after_previous_batch
     (snd (recoverFromDisconnection relapsing_env [item_a, item_b] 0 after_previous_batch)) \<and>
   recovery_cycles
     (log (snd (recoverFromDisconnection relapsing_env [item_a, item_b] 0 after_previous_batch)))
     = 5 \<and>
   recoveryAttempts after_previous_batch < MAX_RECOVERY_ATTEMPTS \<and>
   launch steady_env (launches after_previous_batch) = None \<and>
   no_disconnection steady_env \<and>
   fst (recoverFromDisconnection steady_env [item_a, item_b] 0 after_previous_batch) =
     Processed (fst (processRemainingItems steady_env [item_a, item_b] 0
                       (relaunched 0 after_previous_batch))) \<and>
   (\<exists>r s'. recoverFromDisconnection steady_env [item_a, item_b] 0 after_previous_batch =
              (Processed r, s') \<and>
      details r =
        [ItemDetail \<lparr>r_success = True, r_materialItem = item_a,
           r_updatedItemSources = Some [update_a], r_outdatedUrls = Some [], r_error = None\<rparr>,
         ItemDetail \<lparr>r_success = True, r_materialItem = item_b,
           r_updatedItemSources = Some [update_b], r_outdatedUrls = Some [], r_error = None\<rparr>] \<and>
      recovery_cycles (log s') = 1 \<and> recovery_cycles (log s') \<le> 5 \<and>
      recoveryAttempts s' = 0 \<and> \<not> isRecovering s')"
proof -
  let ?s = "after_previous_batch"
  have s: "recoveryAttempts ?s = 0 \<and> recoveryAttempts ?s \<le> MAX_RECOVERY_ATTEMPTS \<and>
      recoveryAttempts ?s < MAX_RECOVERY_ATTEMPTS \<and> launches ?s = 1 \<and> runs ?s = 0 \<and>
      log ?s = []"
    by (simp add: after_previous_batch_def MAX_RECOVERY_ATTEMPTS_def)
  have l: "launch steady_env (launches ?s) = None"
    by (simp add: steady_env_def)
  note stuck = recovery_bound[of ?s stuck_env "[item_a, item_b]" 1]
  note steady = recovery_bound[of ?s steady_env "[item_a, item_b]" 0]
  from stuck stuck_env_always_disconnected s
  have a: "\<exists>s'. recoverFromDisconnection stuck_env [item_a, item_b] 1 ?s =
            (RecoveryFailed ''Exceeded maximum recovery attempts'' 1
               (length [item_a, item_b]), s') \<and>
          recovery_cycles (log s') = 5"
    by (simp add: MAX_RECOVERY_ATTEMPTS_def)
  have x: "exhausted ?s (snd (recoverFromDisconnection relapsing_env [item_a, item_b] 0 ?s))"
    using s by (simp add: relapsing_run exhausted_def)
  from recovery_bound[of ?s relapsing_env "[item_a, item_b]" 0] s x
  have x': "recovery_cycles
     (log (snd (recoverFromDisconnection relapsing_env [item_a, item_b] 0 ?s))) = 5"
    by (simp add: MAX_RECOVERY_ATTEMPTS_def)
  from steady s l
  have b: "fst (recoverFromDisconnection steady_env [item_a, item_b] 0 ?s) =
     Processed (fst (processRemainingItems steady_env [item_a, item_b] 0 (relaunched 0 ?s)))"
    by blast
  from steady s l steady_env_no_disconnection
  obtain r s' where c:
    "recoverFromDisconnection steady_env [item_a, item_b] 0 ?s = (Processed r, s')"
    "details r =
       map (\<lambda>j. expected_detail steady_env (runs ?s + j) ([item_a, item_b] ! (0 + j)))
         [0..<length [item_a, item_b] - 0]"
    "recovery_cycles (log s') = recovery_cycles (log ?s) + 1"
    "recoveryAttempts s' = 0" "\<not> isRecovering s'"
    by blast
  have "[0..<length [item_a, item_b] - 0] = [0, 1]"
    by (simp add: upt_rec)
  with c(2) have c2: "details r =
        [ItemDetail \<lparr>r_success = True, r_materialItem = item_a,
           r_updatedItemSources = Some [update_a], r_outdatedUrls = Some [], r_error = None\<rparr>,
         ItemDetail \<lparr>r_success = True, r_materialItem = item_b,
           r_updatedItemSources = Some [update_b], r_outdatedUrls = Some [], r_error = None\<rparr>]"
    by (simp add: expected_detail_def steady_env_def priced_result s)
  from c(3) s have c3: "recovery_cycles (log s') = 1" by simp
  have c': "\<exists>r s'. recoverFromDisconnection steady_env [item_a, item_b] 0 ?s = (Processed r, s') \<and>
      details r =
        [ItemDetail \<lparr>r_success = True, r_materialItem = item_a,
           r_updatedItemSources = Some [update_a], r_outdatedUrls = Some [], r_error = None\<rparr>,
         ItemDetail \<lparr>r_success = True, r_materialItem = item_b,
           r_updatedItemSources = Some [update_b], r_outdatedUrls = Some [], r_error = None\<rparr>] \<and>
      recovery_cycles (log s') = 1 \<and> recovery_cycles (log s') \<le> 5 \<and>
      recoveryAttempts s' = 0 \<and> \<not> isRecovering s'"
    using c(1) c2 c3 c(4,5) by (intro exI[of _ r] exI[of _ s']) simp
  from stuck_env_always_disconnected s a x x' l steady_env_no_disconnection b c'
  show ?thesis by simp
qed

subsection \<open>Resuming after a disconnection\<close>

text \<open>
  The loop resumes at the index of the detection. When the browser reference is
  missing at the head of the loop for index \<open>i\<close>, or when the call for item \<open>i\<close> throws a
  disconnection-class error, and the recovery re-launches the browser, the loop
  continues as \<open>processRemainingItems\<close> from the same index \<open>i\<close> with fresh counters, and
  the records of that run are appended to those gathered before. The second way is
  what the \<open>catch\<close> of the loop and the error thrown by the domain loop of
  \<open>processMaterialItem\<close> are written for.
\<close>

lemma missing_reference_resumes:
  assumes "i < length items" "\<not> browser s"
    "recoveryAttempts s < MAX_RECOVERY_ATTEMPTS" "launch e (launches s) = None"
  shows "items_loop e items i res s =
           (case processRemainingItems e items i
                   (relaunched i (log_event LogNotConnected (s\<lparr>currentIndex := i\<rparr>))) of
              (r, s') \<Rightarrow>
                (merge_results res (Processed r), finish_recovery (length items) i r s'))"
proof -
  let ?s = "log_event LogNotConnected (s\<lparr>currentIndex := i\<rparr>)"
  have "recoveryAttempts ?s < MAX_RECOVERY_ATTEMPTS" "launch e (launches ?s) = None"
    using assms(3,4) by (simp_all add: log_event_def)
  then have "recoverFromDisconnection e items i ?s =
     (case processRemainingItems e items i (relaunched i ?s) of
        (r, s') \<Rightarrow> (Processed r, finish_recovery (length items) i r s'))"
    by (rule relaunch_resumes)
  with assms(1,2) show ?thesis
    by (subst items_loop.simps) (simp split: prod.splits)
qed

lemma thrown_disconnection_resumes:
  assumes "i < length items" "browser s" "run_item e (runs s) = Threw msg"
    "is_disconnect_message msg"
    "recoveryAttempts s < MAX_RECOVERY_ATTEMPTS" "launch e (launches s) = None"
  shows "items_loop e items i res s =
           (case processRemainingItems e items i
                   (relaunched i (log_event (LogDisconnection msg) (after_item e i s))) of
              (r, s') \<Rightarrow>
                (merge_results res (Processed r), finish_recovery (length items) i r s'))"
proof -
  let ?s = "log_event (LogDisconnection msg) (after_item e i s)"
  have "recoveryAttempts ?s < MAX_RECOVERY_ATTEMPTS" "launch e (launches ?s) = None"
    using assms(5,6) by simp_all
  then have "recoverFromDisconnection e items i ?s =
     (case processRemainingItems e items i (relaunched i ?s) of
        (r, s') \<Rightarrow> (Processed r, finish_recovery (length items) i r s'))"
    by (rule relaunch_resumes)
  with assms(1-4) show ?thesis
    by (subst items_loop.simps) (simp split: prod.splits)
qed

text \<open>
  In the program the second way is never taken. While the browser reference is there
  and nobody closes the pool, the loop calls \<open>processMaterialItem\<close> once for each item
  from the current index on and starts no recovery cycle, whatever happens to the
  browser inside the calls.
\<close>

lemma in_flight_undetected:
  assumes "browser s"
  shows "\<exists>r' s'. items_loop (program_env l ies (\<lambda>k. False)) items i res s = (r', s') \<and>
           recovery_cycles (log s') = recovery_cycles (log s) \<and>
           runs s' = runs s + (length items - i) \<and>
           length (details r') = length (details res) + (length items - i)"
proof -
  from contained_run[OF program_no_disconnection assms refl, of l ies items i res]
  obtain r' s' where
    "items_loop (program_env l ies (\<lambda>k. False)) items i res s = (r', s')"
    "details r' = details res @
       map (\<lambda>j. expected_detail (program_env l ies (\<lambda>k. False)) (runs s + j) (items ! (i + j)))
         [0..<length items - i]"
    "recovery_cycles (log s') = recovery_cycles (log s)"
    "runs s' = runs s + (length items - i)"
    by blast
  then show ?thesis by simp
qed


subsection \<open>Accounting of a batch\<close>





text \<open>
  C7 (error containment). In \<open>processItemSource\<close>, an error thrown by the screenshot,
  the extraction or the database that is not of the disconnection class, with the
  browser reference present, comes back as a failure record carrying its message;
  the function throws only for a disconnection-class error or a missing browser
  reference. In the loop over the items, such an error of an item adds a failure
  record and the loop goes on with the next item; and while no call meets a
  disconnection, every item from the current index on gets its own record and no
  recovery cycle is started.
\<close>

theorem error_containment:
  "(source_body se (initial_result src item) = Inl msg \<and>
    \<not> is_disconnect_message msg \<and> browser_at_catch se \<longrightarrow>
      (\<exists>r. processItemSource se src item = Inr r \<and> \<not> sr_success r \<and>
           sr_error r = Some msg)) \<and>
   (isl (processItemSource se src item) \<longrightarrow>
      (\<exists>m. source_body se (initial_result src item) = Inl m \<and>
           (is_disconnect_message m \<or> \<not> browser_at_catch se))) \<and>
   (i < length items \<and> browser s \<and> run_item e (runs s) = Threw msg \<and>
    \<not> is_disconnect_message msg \<and> \<not> pool_closed e (runs s) \<longrightarrow>
      items_loop e items i res s =
        items_loop e items (i + 1) (record_error res (items ! i) msg)
          (log_event (LogItemError (mi_id (items ! i)) msg) (after_item e i s))) \<and>
   (no_disconnection e \<and> browser s \<longrightarrow>
      (\<exists>r' s'. items_loop e items i res s = (r', s') \<and>
         details r' =
           details res @
           map (\<lambda>j. expected_detail e (runs s + j) (items ! (i + j))) [0..<length items - i] \<and>
         recovery_cycles (log s') = recovery_cycles (log s)))"
proof (intro conjI impI)
  assume "source_body se (initial_result src item) = Inl msg \<and>
    \<not> is_disconnect_message msg \<and> browser_at_catch se"
  then show "\<exists>r. processItemSource se src item = Inr r \<and> \<not> sr_success r \<and>
           sr_error r = Some msg"
    by (simp add: processItemSource_def initial_result_def)
next
  assume "isl (processItemSource se src item)"
  then show "\<exists>m. source_body se (initial_result src item) = Inl m \<and>
           (is_disconnect_message m \<or> \<not> browser_at_catch se)"
    by (auto simp: processItemSource_def split: sum.splits if_splits)
next
  assume "i < length items \<and> browser s \<and> run_item e (runs s) = Threw msg \<and>
    \<not> is_disconnect_message msg \<and> \<not> pool_closed e (runs s)"
  then show "items_loop e items i res s =
        items_loop e items (i + 1) (record_error res (items ! i) msg)
          (log_event (LogItemError (mi_id (items ! i)) msg) (after_item e i s))"
    by (simp add: contained_step)
next
  assume "no_disconnection e \<and> browser s"
  with contained_run[of e s "length items - i" items i res]
  show "\<exists>r' s'. items_loop e items i res s = (r', s') \<and>
         details r' =
           details res @
           map (\<lambda>j. expected_detail e (runs s + j) (items ! (i + j))) [0..<length items - i] \<and>
         recovery_cycles (log s') = recovery_cycles (log s)"
    by blast
qed

lemma flaky_env_no_disconnection: "no_disconnection flaky_env"
  by (simp add: no_disconnection_def flaky_env_def is_disconnect_message_def sublist_code)

theorem error_containment_witness:
  "source_body dns_failure (initial_result source_a item_a) =
     Inl ''net::ERR_NAME_NOT_RESOLVED at https://vendor.example/p/1'' \<and>
   \<not> is_disconnect_message ''net::ERR_NAME_NOT_RESOLVED at https://vendor.example/p/1'' \<and>
   browser_at_catch dns_failure \<and>
   (\<exists>r. processItemSource dns_failure source_a item_a = Inr r \<and> \<not> sr_success r \<and>
        sr_error r = Some ''net::ERR_NAME_NOT_RESOLVED at https://vendor.example/p/1'') \<and>
   isl (processItemSource tab_crash source_a item_a) \<and>
   is_disconnect_message ''Protocol error (Page.captureScreenshot): Target closed.'' \<and>
   0 < length [item_a, item_b] \<and> browser running_state \<and>
   run_item flaky_env (runs running_state) = Threw ''Navigation timeout of 90000 ms exceeded'' \<and>
   \<not> is_disconnect_message ''Navigation timeout of 90000 ms exceeded'' \<and>
   \<not> pool_closed flaky_env (runs running_state) \<and>
   no_disconnection flaky_env \<and>
   (\<exists>r' s'. items_loop flaky_env [item_a, item_b] 0 empty_results running_state = (r', s') \<and>
      details r' =
        [ErrorDetail ''m1'' ''Copper pipe'' ''Navigation timeout of 90000 ms exceeded'',
         ItemDetail \<lparr>r_success = False, r_materialItem = item_b,
           r_updatedItemSources = None, r_outdatedUrls = None, r_error = None\<rparr>] \<and>
      recovery_cycles (log s') = 0)"
proof -
  let ?dns = "''net::ERR_NAME_NOT_RESOLVED at https://vendor.example/p/1''"
  let ?nav = "''Navigation timeout of 90000 ms exceeded''"
  have a: "source_body dns_failure (initial_result source_a item_a) = Inl ?dns \<and>
      \<not> is_disconnect_message ?dns \<and> browser_at_catch dns_failure"
    by (simp add: source_body_def dns_failure_def is_disconnect_message_def sublist_code)
  have b: "isl (processItemSource tab_crash source_a item_a) \<and>
      is_disconnect_message ''Protocol error (Page.captureScreenshot): Target closed.''"
    by (simp add: processItemSource_def source_body_def tab_crash_def is_disconnect_message_def)
  have c: "0 < length [item_a, item_b] \<and> browser running_state \<and>
      run_item flaky_env (runs running_state) = Threw ?nav \<and>
      \<not> is_disconnect_message ?nav \<and> \<not> pool_closed flaky_env (runs running_state)"
    by (simp add: running_state_def flaky_env_def is_disconnect_message_def sublist_code)
  have d: "no_disconnection flaky_env \<and> browser running_state"
    using flaky_env_no_disconnection by (simp add: running_state_def)
  note thm1 = error_containment[of dns_failure source_a item_a ?dns 0 "[item_a, item_b]"
      running_state flaky_env empty_results]
  note thm2 = error_containment[of tab_crash source_a item_a ?nav 0 "[item_a, item_b]"
      running_state flaky_env empty_results]
  from thm1 a have a': "\<exists>r. processItemSource dns_failure source_a item_a = Inr r \<and>
      \<not> sr_success r \<and> sr_error r = Some ?dns"
    by blast
  from thm2 c d obtain r' s' where
    run: "items_loop flaky_env [item_a, item_b] 0 empty_results running_state = (r', s')"
      "details r' = details empty_results @
         map (\<lambda>j. expected_detail flaky_env (runs running_state + j) ([item_a, item_b] ! (0 + j)))
           [0..<length [item_a, item_b] - 0]"
      "recovery_cycles (log s') = recovery_cycles (log running_state)"
    by blast
  have "[0..<length [item_a, item_b] - 0] = [0, 1]"
    by (simp add: upt_rec)
  with run have "details r' =
        [ErrorDetail ''m1'' ''Copper pipe'' ?nav,
         ItemDetail \<lparr>r_success = False, r_materialItem = item_b,
           r_updatedItemSources = None, r_outdatedUrls = None, r_error = None\<rparr>] \<and>
      recovery_cycles (log s') = 0"
    by (simp add: expected_detail_def flaky_env_def running_state_def empty_results_def
          item_a_def)
  with run(1) a a' b c d show ?thesis by blast
qed

section \<open>Properties of the task queue\<close>

lemma insort_keeps_order:
  assumes "same_priority_in_order ys"
    and "\<forall>y\<in>set ys. priority x = priority y \<longrightarrow> tid x < tid y"
  shows "same_priority_in_order (insort_key (\<lambda>e. - priority e) x ys)"
  using assms
proof (induction ys)
  case Nil
  then show ?case by (simp add: same_priority_in_order_def)
next
  case (Cons y ys)
  then show ?case
    by (auto simp: same_priority_in_order_def set_insort_key)
qed

lemma by_priority_keeps_order:
  "same_priority_in_order es \<Longrightarrow> same_priority_in_order (by_priority es)"
proof (induction es)
  case Nil
  then show ?case by (simp add: by_priority_def)
next
  case (Cons x es)
  then have "same_priority_in_order (by_priority es)"
    and "\<forall>y\<in>set (by_priority es). priority x = priority y \<longrightarrow> tid x < tid y"
    by (auto simp: same_priority_in_order_def by_priority_def)
  then show ?case
    using insort_keeps_order[of "by_priority es" x] by (simp add: by_priority_def)
qed

lemma by_priority_simps [simp]:
  "set (by_priority es) = set es"
  "length (by_priority es) = length es"
  "by_priority es = [] \<longleftrightarrow> es = []"
  by (auto simp: by_priority_def simp flip: length_0_conv)

lemma by_priority_sorted: "sorted (map (\<lambda>e. - priority e) (by_priority es))"
  by (simp add: by_priority_def)

lemma hd_by_priority:
  assumes "es \<noteq> []" "same_priority_in_order es"
  shows "highest_first (hd (by_priority es)) es"
proof -
  obtain e rest where s: "by_priority es = e # rest"
    using assms(1) by (cases "by_priority es") auto
  have "sorted (map (\<lambda>e. - priority e) (e # rest))"
    using by_priority_sorted[of es] s by simp
  then have le: "\<forall>x\<in>set rest. priority x \<le> priority e" by auto
  have "same_priority_in_order (e # rest)"
    using by_priority_keeps_order[OF assms(2)] s by simp
  then have tie: "\<forall>x\<in>set rest. priority e = priority x \<longrightarrow> tid e < tid x"
    by (simp add: same_priority_in_order_def)
  have set: "set es = insert e (set rest)"
    using by_priority_simps(1)[of es] s by simp
  show ?thesis
    using le tie set s
    by (auto simp: highest_first_def list_ex_iff list_all_iff)
qed


lemma start_next_inv:
  assumes "queue_inv q" "running q < int (concurrency q)" "queue q \<noteq> []"
  shows "queue_inv (start_next q)"
proof -
  obtain e rest where s: "by_priority (queue q) = e # rest"
    using assms(3) by (cases "by_priority (queue q)") auto
  have set: "set (queue q) = insert e (set rest)"
    using by_priority_simps(1)[of "queue q"] s by simp
  have ord: "same_priority_in_order (e # rest)"
    using by_priority_keeps_order[of "queue q"] assms(1) s by (simp add: queue_inv_def)
  have "distinct (map tid (by_priority (queue q)))"
    using assms(1) by (simp add: queue_inv_def by_priority_def distinct_map)
  then have d: "distinct (map tid rest)" "tid e \<notin> tid ` set rest"
    using s by simp_all
  from d(2) have "\<forall>x\<in>set rest. tid x \<noteq> tid e"
    by (metis imageI)
  with d(1) have fresh: "distinct (map tid rest)" "\<forall>x\<in>set rest. tid x \<noteq> tid e"
    by simp_all
  show ?thesis
    using assms(1,2) set ord fresh
    by (auto simp: queue_inv_def start_next_def s list_all_iff list_ex_iff
          same_priority_in_order_def)
qed

lemma runNext_inv: "queue_inv q \<Longrightarrow> queue_inv (runNext q)"
proof (induction q rule: runNext.induct)
  case (1 q)
  show ?case
  proof (cases "running q \<ge> int (concurrency q) \<or> queue q = []")
    case True
    then show ?thesis using "1.prems" by (subst runNext.simps) simp
  next
    case False
    then have inv: "queue_inv (start_next q)"
      using start_next_inv[OF "1.prems"] by simp
    show ?thesis
    proof (cases "running (start_next q) < int (concurrency (start_next q))")
      case True
      with False "1.IH"[OF False True inv] show ?thesis
        by (subst runNext.simps) simp
    next
      case notfree: False
      with False inv show ?thesis by (subst runNext.simps) simp
    qed
  qed
qed

lemma enqueue_inv: "queue_inv q \<Longrightarrow> queue_inv (enqueue name p q)"
  by (auto simp: enqueue_def queue_inv_def list_all_iff list_ex_iff same_priority_in_order_def
        sorted_wrt_append)

lemma add_inv: "queue_inv q \<Longrightarrow> queue_inv (add name p q)"
  by (simp add: add_def runNext_inv enqueue_inv)

lemma settle_count:
  assumes "distinct (map tid es)" "find (\<lambda>e. tid e = t) es = Some e"
  shows "int (length (filter (\<lambda>x. tid x \<noteq> t) es)) = int (length es) - 1"
  using assms
proof (induction es)
  case Nil
  then show ?case by simp
next
  case (Cons x es)
  show ?case
  proof (cases "tid x = t")
    case True
    have "tid x \<notin> tid ` set es" using Cons.prems(1) by simp
    then have "\<forall>y\<in>set es. tid y \<noteq> t" using True by (metis imageI)
    then have "filter (\<lambda>x. tid x \<noteq> t) es = es" by (simp add: filter_id_conv)
    with True show ?thesis by simp
  next
    case False
    with Cons show ?thesis by simp
  qed
qed

lemma notify_inv: "queue_inv q \<Longrightarrow> queue_inv (notify q)"
  by (simp add: notify_def queue_inv_def same_priority_in_order_def)

lemma find_tid: "find (\<lambda>e. tid e = t) es = Some e \<Longrightarrow> tid e = t"
  by (induction es) (auto split: if_splits)

lemma complete_inv:
  assumes "queue_inv q" "find (\<lambda>e. tid e = t) (in_flight q) = Some e"
  shows "queue_inv (complete e ok v d q)"
proof -
  have t: "tid e = t" using assms(2) by (rule find_tid)
  have "int (length (filter (\<lambda>x. tid x \<noteq> t) (in_flight q))) = int (length (in_flight q)) - 1"
    using settle_count[OF _ assms(2)] assms(1) by (simp add: queue_inv_def)
  with assms(1) t show ?thesis
    by (auto simp: complete_def queue_inv_def list_all_iff list_ex_iff distinct_map_filter)
qed

lemma settle_inv: "queue_inv q \<Longrightarrow> queue_inv (settle t ok v d q)"
  by (cases "find (\<lambda>e. tid e = t) (in_flight q)")
     (simp_all add: settle_def notify_inv runNext_inv complete_inv)

lemma waitForAll_inv: "queue_inv q \<Longrightarrow> queue_inv (waitForAll q)"
  by (simp add: waitForAll_def queue_inv_def same_priority_in_order_def)

lemma queue_step_inv: "queue_inv q \<Longrightarrow> queue_inv (queue_step q ev)"
  by (cases ev) (simp_all add: add_inv settle_inv waitForAll_inv)

lemma run_queue_inv: "queue_inv q \<Longrightarrow> queue_inv (run_queue evs q)"
  unfolding run_queue_def
  by (induction evs arbitrary: q) (simp_all add: queue_step_inv)

lemma TaskQueue_inv: "queue_inv (TaskQueue c cb)"
  by (simp add: TaskQueue_def queue_inv_def same_priority_in_order_def)

lemma concurrency_runNext [simp]: "concurrency (runNext q) = concurrency q"
proof (induction q rule: runNext.induct)
  case (1 q)
  then show ?case
    by (subst runNext.simps) (auto simp: start_next_def)
qed

lemma concurrency_step [simp]: "concurrency (queue_step q ev) = concurrency q"
  by (cases ev)
     (auto simp: add_def enqueue_def complete_def settle_def waitForAll_def notify_def
        split: option.splits)

lemma concurrency_run [simp]: "concurrency (run_queue evs q) = concurrency q"
  unfolding run_queue_def
  by (induction evs arbitrary: q) simp_all


lemma running_complete [simp]:
  "running (complete e ok v d q) = running q - 1"
  "concurrency (complete e ok v d q) = concurrency q"
  "queue (complete e ok v d q) = queue q"
  "results_list (complete e ok v d q) = results_list q @ [outcome_record e ok v d]"
  by (simp_all add: complete_def)

lemma results_runNext [simp]: "results_list (runNext q) = results_list q"
proof (induction q rule: runNext.induct)
  case (1 q)
  then show ?case
    by (subst runNext.simps) (auto simp: start_next_def)
qed

lemma results_notify [simp]: "results_list (notify q) = results_list q"
  by (simp add: notify_def)

lemma in_flight_notify [simp]: "in_flight (notify q) = in_flight q"
  by (simp add: notify_def)

lemma in_flight_runNext: "\<exists>rest. in_flight (runNext q) = in_flight q @ rest"
proof (induction q rule: runNext.induct)
  case (1 q)
  show ?case
  proof (cases "running q \<ge> int (concurrency q) \<or> queue q = []")
    case True
    then show ?thesis by (subst runNext.simps) simp
  next
    case False
    show ?thesis
    proof (cases "running (start_next q) < int (concurrency (start_next q))")
      case True
      from "1.IH"[OF False True] obtain rest where
        "in_flight (runNext (start_next q)) = in_flight (start_next q) @ rest" by blast
      with False True show ?thesis
        by (subst runNext.simps) (simp add: start_next_def)
    next
      case notfree: False
      with False show ?thesis by (subst runNext.simps) (simp add: start_next_def)
    qed
  qed
qed

lemma runNext_starts:
  assumes "running q < int (concurrency q)" "queue q \<noteq> []"
  shows "\<exists>rest. in_flight (runNext q) = in_flight q @ hd (by_priority (queue q)) # rest"
proof -
  from in_flight_runNext[of "start_next q"] obtain rest where
    r: "in_flight (runNext (start_next q)) = in_flight (start_next q) @ rest" by blast
  show ?thesis
    using assms r by (subst runNext.simps) (auto simp: start_next_def)
qed

lemma fills_slot:
  assumes "queue_inv q" "running q < int (concurrency q)" "queue q \<noteq> []"
  shows "\<exists>e rest. in_flight (runNext q) = in_flight q @ e # rest \<and> highest_first e (queue q)"
  using runNext_starts[OF assms(2,3)] hd_by_priority[OF assms(3)] assms(1)
  by (auto simp: queue_inv_def)

text \<open>
  C5 (scheduler concurrency). After any sequence of \<open>add\<close> calls, settled tasks and
  \<open>waitForAll\<close> calls on a queue constructed with concurrency \<open>c\<close>, the \<open>running\<close>
  counter is the number of started, unsettled tasks and does not exceed the
  configured cap, which is \<open>c\<close> (3 when \<open>c\<close> is missing or 0).
\<close>

theorem scheduler_concurrency:
  "running (run_queue evs (TaskQueue c cb)) =
     int (length (in_flight (run_queue evs (TaskQueue c cb)))) \<and>
   running (run_queue evs (TaskQueue c cb)) \<le>
     int (concurrency (run_queue evs (TaskQueue c cb))) \<and>
   concurrency (run_queue evs (TaskQueue c cb)) = (if c = 0 then 3 else c) \<and>
   (0 < c \<longrightarrow> running (run_queue evs (TaskQueue c cb)) \<le> int c)"
  using run_queue_inv[OF TaskQueue_inv, of evs c cb]
  by (auto simp: queue_inv_def TaskQueue_def)

lemmas queue_defs = run_queue_def TaskQueue_def add_def enqueue_def settle_def complete_def
  notify_def outcome_record_def runNext.simps start_next_def by_priority_def

lemma busy_queue_eval:
  "busy_queue =
     \<lparr>concurrency = 1, running = 1,
      queue = [\<lparr>tid = 1, taskName = ''low'', priority = 1\<rparr>,
               \<lparr>tid = 2, taskName = ''high'', priority = 5\<rparr>,
               \<lparr>tid = 3, taskName = ''high again'', priority = 5\<rparr>],
      results_list = [], onComplete = False,
      in_flight = [\<lparr>tid = 0, taskName = ''first'', priority = 0\<rparr>],
      arrivals = 4, completions = 0\<rparr>"
  by (simp add: busy_queue_def queue_defs)

theorem scheduler_concurrency_witness:
  "(0::nat) < 1 \<and> running busy_queue \<le> int 1 \<and> running busy_queue = 1 \<and>
   length (queue busy_queue) = 3"
  using scheduler_concurrency[of "[Add ''first'' 0, Add ''low'' 1, Add ''high'' 5,
      Add ''high again'' 5]" 1 False]
  by (simp add: busy_queue_eval)

text \<open>
  C6 (priority scheduling). Let \<open>Q\<close> be the queue after any sequence of events. A call
  of \<open>add\<close> that finds a free slot starts, among the entries then queued, the one of the
  highest priority, the earliest arrival among equals. When a task in flight settles,
  fulfilled or rejected, its record (name, success flag, result or error message,
  duration) is appended to the results, and if the queue is not empty the freed slot
  is filled at once by the queued entry of the highest priority, the earliest arrival
  among equals.
\<close>

theorem priority_scheduling:
  assumes "Q = run_queue evs (TaskQueue c cb)"
  shows
  "(running (enqueue name p Q) < int (concurrency Q) \<longrightarrow>
      (\<exists>e rest. in_flight (add name p Q) = in_flight Q @ e # rest \<and>
         highest_first e (queue (enqueue name p Q)))) \<and>
   (find (\<lambda>e. tid e = t) (in_flight Q) = Some e0 \<longrightarrow>
      results_list (settle t ok v d Q) =
        results_list Q @
          [\<lparr>rec_taskName = taskName e0, rec_success = ok,
            rec_result = (if ok then Some v else None),
            rec_error = (if ok then None else Some v), rec_duration = d\<rparr>] \<and>
      (queue Q \<noteq> [] \<longrightarrow>
         (\<exists>e rest. in_flight (settle t ok v d Q) =
              filter (\<lambda>x. tid x \<noteq> t) (in_flight Q) @ e # rest \<and>
            highest_first e (queue Q))))"
proof (intro conjI impI)
  have inv: "queue_inv Q"
    using assms run_queue_inv[OF TaskQueue_inv] by simp
  {
    assume free: "running (enqueue name p Q) < int (concurrency Q)"
    have "queue (enqueue name p Q) \<noteq> []" by (simp add: enqueue_def)
    with fills_slot[OF enqueue_inv[OF inv, of name p]] free
    show "\<exists>e rest. in_flight (add name p Q) = in_flight Q @ e # rest \<and>
         highest_first e (queue (enqueue name p Q))"
      by (simp add: add_def enqueue_def)
  }
  {
    assume f: "find (\<lambda>e. tid e = t) (in_flight Q) = Some e0"
    then show "results_list (settle t ok v d Q) =
        results_list Q @
          [\<lparr>rec_taskName = taskName e0, rec_success = ok,
            rec_result = (if ok then Some v else None),
            rec_error = (if ok then None else Some v), rec_duration = d\<rparr>]"
      by (simp add: settle_def outcome_record_def)
    assume ne: "queue Q \<noteq> []"
    have t: "tid e0 = t" using f by (rule find_tid)
    have "running (complete e0 ok v d Q) < int (concurrency (complete e0 ok v d Q))"
      using inv by (simp add: queue_inv_def)
    with fills_slot[OF complete_inv[OF inv f, of ok v d]] ne f t
    show "\<exists>e rest. in_flight (settle t ok v d Q) =
              filter (\<lambda>x. tid x \<noteq> t) (in_flight Q) @ e # rest \<and>
            highest_first e (queue Q)"
      by (simp add: settle_def complete_def)
  }
qed

theorem priority_scheduling_witness:
  "running (enqueue ''only'' 0 (run_queue [] (TaskQueue 2 False)))
     < int (concurrency (run_queue [] (TaskQueue 2 False))) \<and>
   in_flight (add ''only'' 0 (run_queue [] (TaskQueue 2 False))) =
     [\<lparr>tid = 0, taskName = ''only'', priority = 0\<rparr>] \<and>
   find (\<lambda>e. tid e = 0) (in_flight busy_queue) =
     Some \<lparr>tid = 0, taskName = ''first'', priority = 0\<rparr> \<and>
   queue busy_queue \<noteq> [] \<and>
   results_list (settle 0 False ''boom'' 12 busy_queue) =
     [\<lparr>rec_taskName = ''first'', rec_success = False, rec_result = None,
       rec_error = Some ''boom'', rec_duration = 12\<rparr>] \<and>
   in_flight (settle 0 False ''boom'' 12 busy_queue) =
     [\<lparr>tid = 2, taskName = ''high'', priority = 5\<rparr>] \<and>
   highest_first \<lparr>tid = 2, taskName = ''high'', priority = 5\<rparr> (queue busy_queue)"
proof -
  let ?first = "\<lparr>tid = 0, taskName = ''first'', priority = 0\<rparr>"
  have a: "running (enqueue ''only'' 0 (run_queue [] (TaskQueue 2 False)))
     < int (concurrency (run_queue [] (TaskQueue 2 False)))"
    by (simp add: queue_defs)
  have b: "find (\<lambda>e. tid e = 0) (in_flight busy_queue) = Some ?first \<and> queue busy_queue \<noteq> []"
    by (simp add: busy_queue_eval)
  note i1 = priority_scheduling[where evs = "[]" and c = 2 and cb = False and
      name = "''only''" and p = 0, OF refl]
  note i2 = priority_scheduling[OF busy_queue_def, where t = 0 and ?e0.0 = ?first and
      ok = False and v = "''boom''" and d = 12]
  from i1 a obtain e rest where
    "in_flight (add ''only'' 0 (run_queue [] (TaskQueue 2 False))) =
       in_flight (run_queue [] (TaskQueue 2 False)) @ e # rest"
    by blast
  have c: "in_flight (add ''only'' 0 (run_queue [] (TaskQueue 2 False))) =
     [\<lparr>tid = 0, taskName = ''only'', priority = 0\<rparr>]"
    by (simp add: queue_defs)
  from i2 b have r: "results_list (settle 0 False ''boom'' 12 busy_queue) =
     results_list busy_queue @
       [\<lparr>rec_taskName = taskName ?first, rec_success = False,
         rec_result = (if False then Some ''boom'' else None),
         rec_error = (if False then None else Some ''boom''), rec_duration = 12\<rparr>]"
    by blast
  have s: "in_flight (settle 0 False ''boom'' 12 busy_queue) =
     [\<lparr>tid = 2, taskName = ''high'', priority = 5\<rparr>]"
    by (simp add: busy_queue_eval settle_def complete_def notify_def runNext.simps
          start_next_def by_priority_def)
  from i2 b obtain e' rest' where
    e': "in_flight (settle 0 False ''boom'' 12 busy_queue) =
           filter (\<lambda>x. tid x \<noteq> 0) (in_flight busy_queue) @ e' # rest'"
        "highest_first e' (queue busy_queue)"
    by blast
  from e'(1) s have "e' = \<lparr>tid = 2, taskName = ''high'', priority = 5\<rparr>"
    by (simp add: busy_queue_eval)
  with e'(2) a b c r s show ?thesis
    by (simp add: busy_queue_eval)
qed

section \<open>Properties of the session manager\<close>

lemma sm_initialize_initialized:
  "sm_initialize now md = Inr (m, d) \<Longrightarrow> initialized m"
  by (cases md) (auto simp: sm_initialize_def split: if_splits prod.splits)

lemma sm_initialize_idle:
  "initialized m \<Longrightarrow> sm_initialize now (m, d) = Inr (m, d)"
  by (simp add: sm_initialize_def)

lemma unlink_removes:
  "\<not> unlink_fails d name \<Longrightarrow> map_of (entries (snd (unlink name d))) name = None"
  by (auto simp: unlink_def map_of_eq_None_iff)

lemma expired_not_valid:
  "s ''timestamp'' = Some (Instant t) \<Longrightarrow> 86400000 \<le> now - t \<Longrightarrow> \<not> isSessionValid now s"
  by (simp add: isSessionValid_def SESSION_VALIDITY_HOURS_def)

lemma valid_timestamp:
  "isSessionValid now s \<Longrightarrow> \<exists>t. s ''timestamp'' = Some (Instant t) \<and> now - t < 86400000"
  by (auto simp: isSessionValid_def SESSION_VALIDITY_HOURS_def split: option.splits jsval.splits)

text \<open>
  C8 (session expiry). Whatever \<open>getSession\<close> returns is valid at the time of the
  call: its timestamp is less than 24 hours (86400000 ms) old. A stored session whose
  age has reached 24 hours is not returned: the record is deleted from the map, the
  file \<open>domain.json\<close> is gone afterwards unless \<open>unlink\<close> fails, and every later call
  returns none again. An uninitialised manager whose directory holds
  the file of the expired session deletes that file while loading and returns none.
\<close>

theorem session_expiry:
  "(getSession now domain md = Inr (Some s, md') \<longrightarrow>
      (\<exists>t. s ''timestamp'' = Some (Instant t) \<and> now - t < 86400000)) \<and>
   (initialized m \<and> sessions m domain = Some s \<and>
    s ''timestamp'' = Some (Instant t) \<and> 86400000 \<le> now - t \<longrightarrow>
      (\<exists>m' d'. getSession now domain (m, d) = Inr (None, m', d') \<and>
         sessions m' domain = None \<and>
         (\<not> unlink_fails d (session_file domain) \<longrightarrow>
            map_of (entries d') (session_file domain) = None) \<and>
         (\<forall>now'. getSession now' domain (m', d') = Inr (None, m', d')))) \<and>
   (\<not> initialized m \<and> sessions m = Map.empty \<and> \<not> broken_dir d \<and>
    entries d = [(session_file domain, Json s)] \<and>
    s ''timestamp'' = Some (Instant t) \<and> 86400000 \<le> now - t \<and>
    \<not> unlink_fails d (session_file domain) \<longrightarrow>
      (\<exists>m' d'. getSession now domain (m, d) = Inr (None, m', d') \<and> entries d' = []))"
proof (intro conjI impI)
  assume "getSession now domain md = Inr (Some s, md')"
  then have "isSessionValid now s"
    by (auto simp: getSession_def split: sum.splits option.splits if_splits)
  then show "\<exists>t. s ''timestamp'' = Some (Instant t) \<and> now - t < 86400000"
    by (rule valid_timestamp)
next
  assume a: "initialized m \<and> sessions m domain = Some s \<and>
    s ''timestamp'' = Some (Instant t) \<and> 86400000 \<le> now - t"
  then have nv: "\<not> isSessionValid now s" by (simp add: expired_not_valid)
  let ?m = "m\<lparr>sessions := (sessions m)(domain := None)\<rparr>"
  let ?d = "snd (unlink (session_file domain) d)"
  have "getSession now domain (m, d) = Inr (None, ?m, ?d)"
    using a nv by (simp add: getSession_def sm_initialize_idle)
  moreover have "\<forall>now'. getSession now' domain (?m, ?d) = Inr (None, ?m, ?d)"
    using a by (simp add: getSession_def sm_initialize_idle)
  ultimately show "\<exists>m' d'. getSession now domain (m, d) = Inr (None, m', d') \<and>
         sessions m' domain = None \<and>
         (\<not> unlink_fails d (session_file domain) \<longrightarrow>
            map_of (entries d') (session_file domain) = None) \<and>
         (\<forall>now'. getSession now' domain (m', d') = Inr (None, m', d'))"
    using unlink_removes[of d "session_file domain"] by auto
next
  assume a: "\<not> initialized m \<and> sessions m = Map.empty \<and> \<not> broken_dir d \<and>
    entries d = [(session_file domain, Json s)] \<and>
    s ''timestamp'' = Some (Instant t) \<and> 86400000 \<le> now - t \<and>
    \<not> unlink_fails d (session_file domain)"
  then have nv: "\<not> isSessionValid now s" by (simp add: expired_not_valid)
  have "suffix ''.json'' (session_file domain)"
    by (simp add: session_file_def suffix_def)
  with a nv show "\<exists>m' d'. getSession now domain (m, d) = Inr (None, m', d') \<and> entries d' = []"
    by (simp add: getSession_def sm_initialize_def unlink_def)
qed

theorem session_expiry_witness:
  "getSession 90000000 ''vendor.example'' (live_manager, good_disk) =
     Inr (Some recent_session, live_manager, good_disk) \<and>
   recent_session ''timestamp'' = Some (Instant 89000000) \<and>
   initialized stale_manager \<and> sessions stale_manager ''vendor.example'' = Some old_session \<and>
   old_session ''timestamp'' = Some (Instant 0) \<and> (86400000::int) \<le> 90000000 - 0 \<and>
   \<not> unlink_fails good_disk (session_file ''vendor.example'') \<and>
   (\<exists>m' d'. getSession 90000000 ''vendor.example'' (stale_manager, good_disk) = Inr (None, m', d') \<and>
      sessions m' ''vendor.example'' = None \<and> entries d' = [] \<and>
      getSession 90000001 ''vendor.example'' (m', d') = Inr (None, m', d')) \<and>
   \<not> initialized fresh_manager \<and>
   (\<exists>m' d'. getSession 90000000 ''vendor.example'' (fresh_manager, good_disk) = Inr (None, m', d') \<and>
      entries d' = [])"
proof -
  have h: "initialized stale_manager \<and> sessions stale_manager ''vendor.example'' = Some old_session \<and>
      old_session ''timestamp'' = Some (Instant 0) \<and> (86400000::int) \<le> 90000000 - 0"
    by (simp add: stale_manager_def old_session_def)
  have u: "\<not> unlink_fails good_disk (session_file ''vendor.example'')"
    by (simp add: good_disk_def)
  have f: "\<not> initialized fresh_manager \<and> sessions fresh_manager = Map.empty \<and>
      \<not> broken_dir good_disk \<and>
      entries good_disk = [(session_file ''vendor.example'', Json old_session)]"
    by (simp add: fresh_manager_def good_disk_def session_file_def)
  note i1 = session_expiry[where m = stale_manager and domain = "''vendor.example''" and
      s = old_session and t = 0 and now = 90000000 and d = good_disk]
  note i2 = session_expiry[where m = fresh_manager and domain = "''vendor.example''" and
      s = old_session and t = 0 and now = 90000000 and d = good_disk]
  from i1 h u obtain m' d' where
    r: "getSession 90000000 ''vendor.example'' (stale_manager, good_disk) = Inr (None, m', d')"
       "sessions m' ''vendor.example'' = None"
       "map_of (entries d') (session_file ''vendor.example'') = None"
       "\<forall>now'. getSession now' ''vendor.example'' (m', d') = Inr (None, m', d')"
    by blast
  have "d' = snd (unlink (session_file ''vendor.example'') good_disk)"
    using r(1) h
    by (simp add: getSession_def sm_initialize_idle stale_manager_def isSessionValid_def
          old_session_def SESSION_VALIDITY_HOURS_def)
  then have e: "entries d' = []"
    by (simp add: unlink_def good_disk_def session_file_def)
  from i2 f h u obtain m2 d2 where
    "getSession 90000000 ''vendor.example'' (fresh_manager, good_disk) = Inr (None, m2, d2)"
    "entries d2 = []"
    by blast
  moreover have g: "getSession 90000000 ''vendor.example'' (live_manager, good_disk) =
      Inr (Some recent_session, live_manager, good_disk)"
    by (simp add: getSession_def sm_initialize_def live_manager_def recent_session_def
          isSessionValid_def SESSION_VALIDITY_HOURS_def)
  moreover from session_expiry[where now = 90000000 and domain = "''vendor.example''" and
      md = "(live_manager, good_disk)" and s = recent_session and
      md' = "(live_manager, good_disk)"] g
  have "\<exists>t. recent_session ''timestamp'' = Some (Instant t) \<and> 90000000 - t < 86400000"
    by blast
  moreover have "recent_session ''timestamp'' = Some (Instant 89000000)"
    by (simp add: recent_session_def)
  ultimately show ?thesis using r e h u f by blast
qed

text \<open>
  C10 (saveSession is not atomic). When the write of \<open>domain.json\<close> fails,
  \<open>saveSession\<close> returns false, the disk is unchanged, and the in-memory map already
  holds the new record; \<open>getSession\<close> returns that record for as long as it is valid,
  which is the next 24 hours when \<open>extraData\<close> brings no \<open>timestamp\<close> of its own.
\<close>

theorem save_not_atomic:
  "sm_initialize now md = Inr (m, d) \<and> write_fails d (session_file domain) \<longrightarrow>
     (\<exists>m'. saveSession now domain cookies extraData md = Inr (False, m', d) \<and>
        sessions m' domain = Some (new_session now cookies extraData) \<and>
        (\<forall>now'. isSessionValid now' (new_session now cookies extraData) \<longrightarrow>
           getSession now' domain (m', d) =
             Inr (Some (new_session now cookies extraData), m', d)) \<and>
        (extraData ''timestamp'' = None \<longrightarrow>
           (\<forall>now'. now' - now < 86400000 \<longrightarrow>
              getSession now' domain (m', d) =
                Inr (Some (new_session now cookies extraData), m', d))))"
proof
  assume a: "sm_initialize now md = Inr (m, d) \<and> write_fails d (session_file domain)"
  let ?s = "new_session now cookies extraData"
  let ?m = "m\<lparr>sessions := (sessions m)(domain \<mapsto> ?s)\<rparr>"
  have init: "initialized ?m" using a sm_initialize_initialized[of now md m d] by simp
  have save: "saveSession now domain cookies extraData md = Inr (False, ?m, d)"
    using a by (simp add: saveSession_def writeFile_def)
  have get: "\<forall>now'. isSessionValid now' ?s \<longrightarrow>
      getSession now' domain (?m, d) = Inr (Some ?s, ?m, d)"
    using init by (simp add: getSession_def sm_initialize_idle)
  have fresh: "extraData ''timestamp'' = None \<longrightarrow>
      (\<forall>now'. now' - now < 86400000 \<longrightarrow> isSessionValid now' ?s)"
    by (simp add: isSessionValid_def new_session_def map_add_def SESSION_VALIDITY_HOURS_def)
  show "\<exists>m'. saveSession now domain cookies extraData md = Inr (False, m', d) \<and>
        sessions m' domain = Some ?s \<and>
        (\<forall>now'. isSessionValid now' ?s \<longrightarrow>
           getSession now' domain (m', d) = Inr (Some ?s, m', d)) \<and>
        (extraData ''timestamp'' = None \<longrightarrow>
           (\<forall>now'. now' - now < 86400000 \<longrightarrow>
              getSession now' domain (m', d) = Inr (Some ?s, m', d)))"
    using save get fresh by (intro exI[of _ ?m]) auto
qed

theorem save_not_atomic_witness:
  "sm_initialize 1000 (fresh_manager, full_disk) =
     Inr (fresh_manager\<lparr>initialized := True\<rparr>, full_disk) \<and>
   write_fails full_disk (session_file ''vendor.example'') \<and>
   (\<exists>m'. saveSession 1000 ''vendor.example'' [''sid=2''] Map.empty (fresh_manager, full_disk) =
           Inr (False, m', full_disk) \<and>
         getSession 2000 ''vendor.example'' (m', full_disk) =
           Inr (Some (new_session 1000 [''sid=2''] Map.empty), m', full_disk))"
proof -
  have a: "sm_initialize 1000 (fresh_manager, full_disk) =
      Inr (fresh_manager\<lparr>initialized := True\<rparr>, full_disk) \<and>
      write_fails full_disk (session_file ''vendor.example'')"
    by (simp add: sm_initialize_def fresh_manager_def full_disk_def)
  note i = save_not_atomic[where now = 1000 and md = "(fresh_manager, full_disk)" and
      m = "fresh_manager\<lparr>initialized := True\<rparr>" and d = full_disk and
      domain = "''vendor.example''" and cookies = "[''sid=2'']" and extraData = Map.empty]
  from i a obtain m' where
    r: "saveSession 1000 ''vendor.example'' [''sid=2''] Map.empty (fresh_manager, full_disk) =
          Inr (False, m', full_disk)"
       "Map.empty ''timestamp'' = (None :: jsval option) \<longrightarrow>
          (\<forall>now'. now' - 1000 < 86400000 \<longrightarrow>
             getSession now' ''vendor.example'' (m', full_disk) =
               Inr (Some (new_session 1000 [''sid=2''] Map.empty), m', full_disk))"
    by blast
  from r(2) have "getSession 2000 ''vendor.example'' (m', full_disk) =
      Inr (Some (new_session 1000 [''sid=2''] Map.empty), m', full_disk)"
    by simp
  with r(1) a show ?thesis by blast
qed

section \<open>Properties of the browser pool\<close>

lemma map_of_set_call [simp]:
  "map_of (calls (set_call c st p)) = (map_of (calls p))(c \<mapsto> st)"
  by (simp add: set_call_def update_conv')

lemma pages_set_call [simp]:
  "pages (set_call c st p) = pages p" "maxPagesPerDomain (set_call c st p) = maxPagesPerDomain p"
  "pages_of d (set_call c st p) = pages_of d p"
  by (simp_all add: set_call_def pages_of_def)

lemma pages_of_update:
  "pages_of d (p\<lparr>pages := AList.update d' ps (pages p)\<rparr>) = (if d = d' then ps else pages_of d p)"
  by (simp add: pages_of_def update_conv')

lemma pages_of_claim [simp]:
  "map_of (pages p) d = Some ps \<Longrightarrow>
   length (pages_of d' (claim d ps j p)) = length (pages_of d' p)"
  by (auto simp: claim_def pages_of_def update_conv')

lemma calls_claim [simp]:
  "calls (claim d ps j p) = calls p" "maxPagesPerDomain (claim d ps j p) = maxPagesPerDomain p"
  by (simp_all add: claim_def)

lemma creating_set_call:
  "creating (set_call c st p) c' d =
     (if c' = c then st = AwaitNewPage d else creating p c' d)"
  by (auto simp: creating_def)


lemma first_free_bound:
  "first_free_from i ps = Some j \<Longrightarrow> j < length ps"
  by (auto simp: first_free_from_def split: list.splits dest!: arg_cong[where f = set])

lemma within_cap_claim:
  "within_cap p \<Longrightarrow> map_of (pages p) d = Some ps \<Longrightarrow> within_cap (claim d ps j p)"
  by (simp add: within_cap_def)

lemma creating_claim [simp]: "creating (claim d ps j p) c d' = creating p c d'"
  by (simp add: creating_def)

lemma within_cap_set_call [simp]: "within_cap (set_call c st p) = within_cap p"
  by (simp add: within_cap_def)

lemma reuse_loop_inv:
  assumes "within_cap p" "idle p"
  shows "serial_inv (reuse_loop i d c p)"
proof (cases "map_of (pages p) d")
  case None
  with assms show ?thesis
    by (simp add: reuse_loop_def serial_inv_def creating_set_call idle_def)
next
  case (Some ps)
  then have ps: "pages_of d p = ps" by (simp add: pages_of_def)
  show ?thesis
  proof (cases "first_free_from i ps")
    case (Some j)
    with assms \<open>map_of (pages p) d = Some ps\<close> show ?thesis
      by (simp add: reuse_loop_def serial_inv_def creating_set_call idle_def within_cap_claim)
  next
    case None
    with assms \<open>map_of (pages p) d = Some ps\<close> ps show ?thesis
      by (auto simp: reuse_loop_def serial_inv_def creating_set_call idle_def)
  qed
qed

lemma idle_pages [simp]:
  "idle (p\<lparr>pages := x\<rparr>) = idle p" "idle (p\<lparr>bp_browser := b\<rparr>) = idle p"
  "idle (p\<lparr>bp_connected := b\<rparr>) = idle p" "idle (p\<lparr>next_call := n\<rparr>) = idle p"
  "idle (p\<lparr>pageTimers := ts\<rparr>) = idle p" "idle (p\<lparr>onDisconnect := b\<rparr>) = idle p"
  "idle (p\<lparr>handler_calls := hs\<rparr>) = idle p" "idle (p\<lparr>next_page := n\<rparr>) = idle p"
  by (simp_all add: idle_def creating_def)

lemma within_cap_fields [simp]:
  "within_cap (p\<lparr>bp_browser := b\<rparr>) = within_cap p"
  "within_cap (p\<lparr>bp_connected := b\<rparr>) = within_cap p"
  "within_cap (p\<lparr>next_call := n\<rparr>) = within_cap p"
  "within_cap (p\<lparr>pageTimers := ts\<rparr>) = within_cap p"
  "within_cap (p\<lparr>onDisconnect := b\<rparr>) = within_cap p"
  "within_cap (p\<lparr>handler_calls := hs\<rparr>) = within_cap p"
  "within_cap (p\<lparr>next_page := n\<rparr>) = within_cap p"
  by (simp_all add: within_cap_def pages_of_def)

lemma within_cap_shrink:
  assumes "within_cap p" "map_of (pages p) d = Some ps" "length ps' \<le> length ps"
  shows "within_cap (p\<lparr>pages := AList.update d ps' (pages p)\<rparr>)"
  using assms unfolding within_cap_def
  by (auto simp: pages_of_def update_conv' le_trans split: option.splits)

lemma within_cap_fresh:
  assumes "within_cap p" "map_of (pages p) d = None"
  shows "within_cap (p\<lparr>pages := AList.update d [] (pages p)\<rparr>)"
  using assms unfolding within_cap_def
  by (auto simp: pages_of_def update_conv' split: option.splits)

lemma rejected_inv:
  assumes "within_cap p" "idle p"
  shows "serial_inv (set_call c (Rejected msg) p)"
  using assms by (simp add: serial_inv_def creating_set_call idle_def)

lemma after_launch_inv:
  assumes "within_cap p" "idle p"
  shows "serial_inv (after_launch d c p)"
proof (cases "bp_browser p \<and> \<not> bp_connected p")
  case True
  then show ?thesis using assms by (simp add: after_launch_def rejected_inv)
next
  case False
  show ?thesis
  proof (cases "map_of (pages p) d")
    case None
    have "serial_inv (reuse_loop 0 d c (p\<lparr>pages := AList.update d [] (pages p)\<rparr>))"
      using assms None by (intro reuse_loop_inv within_cap_fresh) simp_all
    with False None show ?thesis by (auto simp: after_launch_def)
  next
    case (Some ps)
    with False reuse_loop_inv[OF assms, of 0 d c] show ?thesis
      by (auto simp: after_launch_def)
  qed
qed

lemma getPage_inv:
  assumes "within_cap p" "idle p"
  shows "serial_inv (getPage d c p)"
proof (cases "bp_browser p")
  case True
  with after_launch_inv[OF assms, of d c] show ?thesis by (simp add: getPage_def)
next
  case False
  with assms show ?thesis
    by (simp add: getPage_def serial_inv_def creating_set_call idle_def)
qed

lemma settled_inv:
  assumes "within_cap p" "idle p" "\<And>d. st \<noteq> AwaitNewPage d"
  shows "serial_inv (set_call c st p)"
  using assms by (simp add: serial_inv_def creating_set_call idle_def)

lemma map_of_mapped:
  "map_of (map (\<lambda>(d, ps). (d, f ps)) al) d = map_option f (map_of al d)"
  by (induction al) auto

lemma within_cap_mapped:
  assumes "within_cap p" "\<And>ps. length (f ps) \<le> length ps"
  shows "within_cap (p\<lparr>pages := map (\<lambda>(d, ps). (d, f ps)) (pages p)\<rparr>)"
  unfolding within_cap_def
proof
  fix d
  show "length (pages_of d (p\<lparr>pages := map (\<lambda>(d, ps). (d, f ps)) (pages p)\<rparr>))
          \<le> maxPagesPerDomain (p\<lparr>pages := map (\<lambda>(d, ps). (d, f ps)) (pages p)\<rparr>)"
  proof (cases "map_of (pages p) d")
    case None
    then show ?thesis by (simp add: pages_of_def map_of_mapped)
  next
    case (Some ps)
    with assms(1) have "length ps \<le> maxPagesPerDomain p"
      by (auto simp: within_cap_def pages_of_def dest!: spec[of _ d])
    with assms(2)[of ps] Some show ?thesis
      by (simp add: pages_of_def map_of_mapped)
  qed
qed

lemma serial_inv_idle: "within_cap p \<Longrightarrow> idle p \<Longrightarrow> serial_inv p"
  by (simp add: serial_inv_def idle_def)

lemma idle_step:
  assumes "within_cap p" "idle p"
  shows "serial_inv (pool_step p ev)"
proof (cases ev)
  case (Call d)
  with getPage_inv[of "p\<lparr>next_call := next_call p + 1\<rparr>" d "next_call p"] assms
  show ?thesis by simp
next
  case (LaunchDone c r)
  show ?thesis
  proof (cases "map_of (calls p) c")
    case None
    with assms LaunchDone show ?thesis by (simp add: launch_done_def serial_inv_idle)
  next
    case (Some st)
    show ?thesis
    proof (cases st)
      case (AwaitLaunch d)
      show ?thesis
      proof (cases r)
        case None
        have "serial_inv (after_launch d c (p\<lparr>bp_browser := True, bp_connected := True\<rparr>))"
          using assms by (intro after_launch_inv) simp_all
        with LaunchDone Some AwaitLaunch None show ?thesis by (simp add: launch_done_def)
      next
        case (Some msg)
        with LaunchDone \<open>map_of (calls p) c = Some st\<close> AwaitLaunch assms show ?thesis
          by (simp add: launch_done_def rejected_inv)
      qed
    qed (use assms LaunchDone Some in \<open>simp_all add: launch_done_def serial_inv_idle\<close>)
  qed
next
  case (EvaluateDone c ok)
  show ?thesis
  proof (cases "map_of (calls p) c")
    case None
    with assms EvaluateDone show ?thesis by (simp add: evaluate_done_def serial_inv_idle)
  next
    case (Some st)
    show ?thesis
    proof (cases st)
      case (AwaitEvaluate d j pid)
      show ?thesis
      proof (cases "map_of (pages p) d")
        case None
        with EvaluateDone Some AwaitEvaluate assms show ?thesis
          by (simp add: evaluate_done_def settled_inv)
      next
        case (Some ps)
        have "serial_inv (reuse_loop j d c
                (p\<lparr>pages := AList.update d (take j ps @ drop (j + 1) ps) (pages p)\<rparr>))"
          using assms Some by (intro reuse_loop_inv within_cap_shrink[where ps = ps]) simp_all
        with EvaluateDone \<open>map_of (calls p) c = Some st\<close> AwaitEvaluate Some assms show ?thesis
          by (simp add: evaluate_done_def settled_inv)
      qed
    next
      case (AwaitEvaluatePolled d pid)
      show ?thesis
      proof (cases "map_of (pages p) d")
        case None
        with EvaluateDone Some AwaitEvaluatePolled assms show ?thesis
          by (simp add: evaluate_done_def settled_inv serial_inv_idle)
      next
        case (Some ps)
        have "serial_inv (getPage d c
                (p\<lparr>pages := AList.update d (filter (\<lambda>pd. page_id pd \<noteq> pid) ps) (pages p)\<rparr>))"
          using assms Some by (intro getPage_inv within_cap_shrink[where ps = ps]) simp_all
        with EvaluateDone \<open>map_of (calls p) c = Some st\<close> AwaitEvaluatePolled Some assms
        show ?thesis
          by (simp add: evaluate_done_def settled_inv)
      qed
    next
      case (Abandoned d pid)
      show ?thesis
      proof (cases "map_of (pages p) d")
        case None
        with EvaluateDone Some Abandoned assms show ?thesis
          by (simp add: evaluate_done_def settled_inv serial_inv_idle)
      next
        case (Some ps)
        have "serial_inv (getPage d c
                (p\<lparr>pages := AList.update d (filter (\<lambda>pd. page_id pd \<noteq> pid) ps) (pages p)\<rparr>))"
          using assms Some by (intro getPage_inv within_cap_shrink[where ps = ps]) simp_all
        with EvaluateDone \<open>map_of (calls p) c = Some st\<close> Abandoned Some assms
        show ?thesis
          by (simp add: evaluate_done_def serial_inv_idle)
      qed
    qed (use assms EvaluateDone Some in \<open>simp_all add: evaluate_done_def serial_inv_idle\<close>)
  qed
next
  case (NewPageDone c r)
  have "\<And>d. map_of (calls p) c \<noteq> Some (AwaitNewPage d)"
    using assms(2) by (simp add: idle_def creating_def)
  then have "new_page_done c r p = p"
    by (auto simp: new_page_done_def split: option.splits call_state.splits)
  with assms NewPageDone show ?thesis by (simp add: serial_inv_idle)
next
  case (Tick c)
  show ?thesis
  proof (cases "map_of (calls p) c")
    case None
    with assms Tick show ?thesis by (simp add: tick_def serial_inv_idle)
  next
    case (Some st)
    show ?thesis
    proof (cases st)
      case (Polling d)
      with Tick Some assms show ?thesis
        by (auto simp: tick_def settled_inv serial_inv_idle within_cap_claim idle_def
              split: option.splits)
    qed (use assms Tick Some in \<open>simp_all add: tick_def serial_inv_idle\<close>)
  qed
next
  case (Timeout c)
  with assms show ?thesis
    by (auto simp: wait_timeout_def settled_inv serial_inv_idle
          split: option.splits call_state.splits)
next
  case (Release pid)
  have "within_cap (release pid p)"
    using within_cap_mapped[OF assms(1),
        of "map (\<lambda>pd. if page_id pd = pid then pd\<lparr>inUse := False\<rparr> else pd)"]
    by (simp add: release_def within_cap_def pages_of_def)
  moreover have "idle (release pid p)"
    using assms(2) by (simp add: release_def idle_def creating_def)
  ultimately show ?thesis using Release by (simp add: serial_inv_idle)
next
  case (IdleTimeout pid)
  have "within_cap (idle_timeout pid p)"
    using within_cap_mapped[OF assms(1),
        of "filter (\<lambda>pd. \<not> (page_id pd = pid \<and> \<not> inUse pd))"] assms(1)
    by (simp add: idle_timeout_def within_cap_def pages_of_def)
  moreover have "idle (idle_timeout pid p)"
    using assms(2) by (simp add: idle_timeout_def idle_def creating_def)
  ultimately show ?thesis using IdleTimeout by (simp add: serial_inv_idle)
next
  case Disconnect
  have "within_cap (on_disconnected p)"
    by (simp add: on_disconnected_def cleanupResources_def within_cap_def pages_of_def Let_def)
  moreover have "idle (on_disconnected p)"
    using assms(2)
    by (simp add: on_disconnected_def cleanupResources_def idle_def creating_def Let_def)
  ultimately show ?thesis using Disconnect by (simp add: serial_inv_idle)
next
  case SetDisconnectHandler
  with assms show ?thesis by (simp add: serial_inv_idle)
qed


lemma within_cap_push:
  assumes "within_cap p" "map_of (pages p) d = Some ps" "length ps < maxPagesPerDomain p"
  shows "within_cap (p\<lparr>pages := AList.update d (ps @ [pd]) (pages p), next_page := n\<rparr>)"
  using assms unfolding within_cap_def
  by (auto simp: pages_of_def update_conv' split: option.splits)

lemma creating_step:
  assumes "serial_inv p" "creating p c d"
  shows "serial_inv (pool_step p (NewPageDone c r))"
proof -
  have cap: "within_cap p" and lt: "length (pages_of d p) < maxPagesPerDomain p"
    and only: "\<And>c' d'. creating p c' d' \<Longrightarrow> c' = c"
    using assms by (auto simp: serial_inv_def)
  have st: "map_of (calls p) c = Some (AwaitNewPage d)"
    using assms(2) by (simp add: creating_def)
  have settle: "\<And>q st'. within_cap q \<Longrightarrow> calls q = calls p \<Longrightarrow> (\<And>d. st' \<noteq> AwaitNewPage d) \<Longrightarrow>
      serial_inv (set_call c st' q)"
  proof -
    fix q st'
    assume q: "within_cap q" "calls q = calls p" "\<And>d. st' \<noteq> AwaitNewPage d"
    have "\<And>c' d'. creating (set_call c st' q) c' d' \<Longrightarrow> False"
      using only q(2,3) by (auto simp: creating_set_call creating_def split: if_splits)
    with q(1) show "serial_inv (set_call c st' q)"
      by (auto simp: serial_inv_def)
  qed
  show ?thesis
  proof (cases r)
    case (Some msg)
    with st cap show ?thesis by (simp add: new_page_done_def creation_failed_def settle)
  next
    case None
    show ?thesis
    proof (cases "map_of (pages p) d")
      case none: None
      with None st cap show ?thesis by (simp add: new_page_done_def creation_failed_def settle)
    next
      case (Some ps)
      then have "length ps < maxPagesPerDomain p" using lt by (simp add: pages_of_def)
      from within_cap_push[OF cap Some this]
      have "within_cap (p\<lparr>pages := AList.update d
               (ps @ [\<lparr>page_id = next_page p, inUse = True\<rparr>]) (pages p),
             next_page := next_page p + 1\<rparr>)" .
      with None st Some show ?thesis by (simp add: new_page_done_def settle)
    qed
  qed
qed

lemma serial_step:
  assumes "serial_inv p" "\<forall>c d. creating p c d \<longrightarrow> (\<exists>r. ev = NewPageDone c r)"
  shows "serial_inv (pool_step p ev)"
proof (cases "idle p")
  case True
  moreover have "within_cap p" using assms(1) by (simp add: serial_inv_def)
  ultimately show ?thesis by (rule idle_step[rotated])
next
  case False
  then obtain c d where cd: "creating p c d" by (auto simp: idle_def)
  with assms(2) obtain r where "ev = NewPageDone c r" by blast
  with creating_step[OF assms(1) cd] show ?thesis by simp
qed

lemma serial_run:
  "serial_inv p \<Longrightarrow> serial p evs \<Longrightarrow> serial_inv (run_pool evs p)"
  unfolding run_pool_def
  by (induction evs arbitrary: p) (simp_all add: serial_step)

lemma BrowserPool_serial_inv: "serial_inv (BrowserPool n)"
  by (simp add: serial_inv_def within_cap_def pages_of_def creating_def BrowserPool_def)

lemma serial_cap:
  assumes "serial (BrowserPool n) evs"
  shows "length (pages_of d (run_pool evs (BrowserPool n)))
           \<le> maxPagesPerDomain (run_pool evs (BrowserPool n))"
  using serial_run[OF BrowserPool_serial_inv assms]
  by (simp add: serial_inv_def within_cap_def)

lemma at_cap_waits:
  assumes "bp_browser p" "bp_connected p" "map_of (pages p) d = Some ps"
    "list_all inUse ps" "maxPagesPerDomain p \<le> length ps"
  shows "pool_step p (Call d) =
           set_call (next_call p) (Polling d) (p\<lparr>next_call := next_call p + 1\<rparr>)"
proof -
  have "filter (\<lambda>j. \<not> inUse (ps ! j)) [0..<length ps] = []"
    using assms(4) by (auto simp: list_all_length filter_empty_conv)
  then have "first_free_from 0 ps = None" by (simp add: first_free_from_def)
  with assms show ?thesis
    by (simp add: getPage_def after_launch_def reuse_loop_def)
qed

lemmas pool_defs = run_pool_def launched_pool_def BrowserPool_def getPage_def after_launch_def
  reuse_loop_def first_free_from_def claim_def set_call_def new_page_done_def
  creation_failed_def evaluate_done_def
  tick_def release_def idle_timeout_def on_disconnected_def cleanupResources_def view_def
  pages_of_def is_disconnect_message_def

text \<open>
  C4 (per-domain cap), at a concrete run: the pool has the default cap 2 and a running
  browser; three calls \<open>getPage('vendor.example')\<close> start before the first of them has
  its page. Each finds the array empty, passes the check \<open>0 < 2\<close> and awaits
  \<open>newPage()\<close>; each pushes its page when that settles. Three pages are tracked for
  the domain, all in use.
\<close>

theorem pool_cap_exceeded:
  "maxPagesPerDomain (run_pool three_calls launched_pool) = 2 \<and>
   pages_of ''vendor.example'' (run_pool three_calls launched_pool) =
     [\<lparr>page_id = 0, inUse = True\<rparr>, \<lparr>page_id = 1, inUse = True\<rparr>,
      \<lparr>page_id = 2, inUse = True\<rparr>] \<and>
   map_of (calls (run_pool three_calls launched_pool)) 2 = Some (Resolved 2)"
  by (simp add: three_calls_def pool_defs)

lemma idle_pool_eval:
  "idle_pool =
     \<lparr>bp_browser = True, bp_connected = True,
      pages = [(''vendor.example'', [\<lparr>page_id = 0, inUse = False\<rparr>])],
      pageTimers = [0], maxPagesPerDomain = 2, onDisconnect = True,
      next_page = 1, next_call = 1, calls = [(0, Resolved 0)], handler_calls = []\<rparr>"
  by (simp add: idle_pool_def pool_defs)

text \<open>
  C9 (disconnect-handler ordering), as the claim states it, at a concrete pool: a
  handler is registered and one released page is tracked with its idle timer. If the
  handler ran before the page tracking is cleared, it would see that page and that
  timer. It sees neither.
\<close>

theorem handler_before_cleanup_counterexample:
  "view idle_pool =
     \<lparr>seen_pages = [(''vendor.example'', [\<lparr>page_id = 0, inUse = False\<rparr>])],
      seen_timers = [0]\<rparr> \<and>
   handler_calls (pool_step idle_pool Disconnect) =
     [\<lparr>seen_pages = [], seen_timers = []\<rparr>] \<and>
   handler_calls (pool_step idle_pool Disconnect) \<noteq> handler_calls idle_pool @ [view idle_pool]"
  by (simp add: idle_pool_eval on_disconnected_def cleanupResources_def view_def)

text \<open>
  C9, amended. On a disconnect event with the browser reference present and a handler
  registered, the handler is called exactly once, after \<open>cleanupResources\<close>: it sees
  an empty pages map and no idle timers. The event leaves the page tracking empty and
  keeps the browser reference. Without a handler, or without a browser reference, no
  handler is called.
\<close>

theorem handler_after_cleanup:
  "(bp_browser p \<and> onDisconnect p \<longrightarrow>
      handler_calls (pool_step p Disconnect) =
        handler_calls p @ [\<lparr>seen_pages = [], seen_timers = []\<rparr>]) \<and>
   (\<not> (bp_browser p \<and> onDisconnect p) \<longrightarrow>
      handler_calls (pool_step p Disconnect) = handler_calls p) \<and>
   pages (pool_step p Disconnect) = [] \<and> pageTimers (pool_step p Disconnect) = [] \<and>
   bp_browser (pool_step p Disconnect) = bp_browser p \<and>
   \<not> bp_connected (pool_step p Disconnect)"
  by (simp add: on_disconnected_def cleanupResources_def view_def Let_def)

theorem handler_after_cleanup_witness:
  "bp_browser idle_pool \<and> onDisconnect idle_pool \<and> handler_calls idle_pool = [] \<and>
   handler_calls (pool_step idle_pool Disconnect) = [\<lparr>seen_pages = [], seen_timers = []\<rparr>] \<and>
   \<not> (bp_browser launched_pool \<and> onDisconnect launched_pool) \<and>
   handler_calls (pool_step launched_pool Disconnect) = []"
  using handler_after_cleanup[of idle_pool] handler_after_cleanup[of launched_pool]
  by (simp add: idle_pool_eval) (simp add: launched_pool_def BrowserPool_def)

end
